theory Spec2Isabelle
  imports Main
begin

section \<open>Data model of \<open>frontend2/client/pages/Index.tsx\<close>\<close>

text \<open>
  The task view of the client keeps a list of \<open>Task\<close> objects in React state
  (\<open>tasks\<close>, replaced through \<open>setTasks\<close>). The handlers that change it are pure
  functions of the previous list, so each is embedded as a function from the previous list
  to the next one.

  Values that arrive from the network are untyped in the source (\<open>Promise<any>\<close>), so
  they are JSON values here. An object is the list of its properties, each name once; reading
  a property that is not there gives \<open>undefined\<close>, which is \<open>None\<close>. The title, the
  description and the output of the entities are copied from the fetched data as they come,
  so they are JSON values too. Of a number the code only asks whether it is zero, so numbers
  are integers here.
\<close>

datatype json =
    JNull
  | JBool bool
  | JNum int
  | JStr string
  | JArr "json list"
  | JObj "(string \<times> json) list"

datatype Status = Pending | InProgress | Completed

datatype Priority = Low | Medium | High

datatype Tab = TabUpdates | TabTasks | TabChat

datatype Window = Today | Yesterday | Week

datatype error = TypeError

record SubTask =
  st_id :: string
  st_title :: json
  st_status :: Status
  st_output :: "json option"
  st_description :: "json option"
  st_completedAt :: "int option"

record Task =
  t_id :: string
  t_title :: json
  t_description :: json
  t_status :: Status
  t_priority :: Priority
  t_createdAt :: int
  t_subtasks :: "SubTask list"

text \<open>
  The wall clock. Every \<open>Date.now()\<close> and \<open>new Date()\<close> of the source is one reading;
  \<open>clk n\<close> is the \<open>n\<close>-th reading (milliseconds since the epoch) and the number of
  readings taken so far is passed along as state.
\<close>

type_synonym clock = "nat \<Rightarrow> int"

text \<open>\<open>Array.prototype.map\<close> with a callback that may read the clock.\<close>

fun map_clock :: "('a \<Rightarrow> nat \<Rightarrow> 'b \<times> nat) \<Rightarrow> 'a list \<Rightarrow> nat \<Rightarrow> 'b list \<times> nat" where
  "map_clock f [] k = ([], k)"
| "map_clock f (x # xs) k =
     (case f x k of (y, k1) \<Rightarrow>
        (case map_clock f xs k1 of (ys, k2) \<Rightarrow> (y # ys, k2)))"

section \<open>Status aggregation: \<open>updateTaskStatus\<close>, \<open>updateSubtaskStatus\<close> and the toggles\<close>

definition updateTaskStatus :: "string \<Rightarrow> Status \<Rightarrow> Task list \<Rightarrow> Task list" where
  "updateTaskStatus taskId newStatus prev =
     map (\<lambda>task. if t_id task = taskId then task\<lparr>t_status := newStatus\<rparr> else task) prev"

text \<open>The callback of the inner \<open>map\<close> over \<open>task.subtasks\<close>.\<close>

definition updateSubtask :: "clock \<Rightarrow> string \<Rightarrow> Status \<Rightarrow> SubTask \<Rightarrow> nat \<Rightarrow> SubTask \<times> nat" where
  "updateSubtask clk subtaskId newStatus subtask k =
     (if st_id subtask = subtaskId
      then (if newStatus = Completed
            then (subtask\<lparr>st_status := newStatus, st_completedAt := Some (clk k)\<rparr>, Suc k)
            else (subtask\<lparr>st_status := newStatus, st_completedAt := None\<rparr>, k))
      else (subtask, k))"

text \<open>The parent status computed from the updated subtasks (lines 384 to 392).\<close>

definition parentStatus :: "SubTask list \<Rightarrow> Status" where
  "parentStatus updatedSubtasks =
     (let completedSubtasks = length (filter (\<lambda>st. st_status st = Completed) updatedSubtasks);
          inProgressSubtasks = length (filter (\<lambda>st. st_status st = InProgress) updatedSubtasks)
      in if completedSubtasks = length updatedSubtasks then Completed
         else if inProgressSubtasks > 0 \<or> completedSubtasks > 0 then InProgress
         else Pending)"

text \<open>The callback of the outer \<open>map\<close> over the tasks.\<close>

definition updateSubtaskOfTask ::
  "clock \<Rightarrow> string \<Rightarrow> string \<Rightarrow> Status \<Rightarrow> Task \<Rightarrow> nat \<Rightarrow> Task \<times> nat" where
  "updateSubtaskOfTask clk taskId subtaskId newStatus task k =
     (if t_id task = taskId
      then (case map_clock (updateSubtask clk subtaskId newStatus) (t_subtasks task) k of
              (updatedSubtasks, k') \<Rightarrow>
                (task\<lparr>t_subtasks := updatedSubtasks, t_status := parentStatus updatedSubtasks\<rparr>, k'))
      else (task, k))"

definition updateSubtaskStatus ::
  "clock \<Rightarrow> string \<Rightarrow> string \<Rightarrow> Status \<Rightarrow> Task list \<Rightarrow> nat \<Rightarrow> Task list \<times> nat" where
  "updateSubtaskStatus clk taskId subtaskId newStatus prev k =
     map_clock (updateSubtaskOfTask clk taskId subtaskId newStatus) prev k"




text \<open>
  Reading \<open>completedAt\<close> from a Task object. The \<open>Task\<close> interface (lines 39 to 47) has no
  such property and no code path writes one, so the read gives \<open>undefined\<close>.
\<close>

definition t_completedAt :: "Task \<Rightarrow> int option" where
  "t_completedAt task = None"

section \<open>The filtered view: \<open>filteredTasks\<close>\<close>

text \<open>
  \<open>new Date(now.getFullYear(), now.getMonth(), now.getDate())\<close> is the start of the local
  calendar day of \<open>now\<close>. The calendar belongs to the platform, so the function that takes
  an instant to the start of its day is a parameter, \<open>startOfDay\<close>.
\<close>

definition hasRecentSubtaskActivity :: "Window \<Rightarrow> int \<Rightarrow> int \<Rightarrow> int \<Rightarrow> Task \<Rightarrow> bool" where
  "hasRecentSubtaskActivity updatesFilter today yesterday weekStart task =
     list_ex (\<lambda>subtask.
        case st_completedAt subtask of
          None \<Rightarrow> False
        | Some completedDate \<Rightarrow>
            (case updatesFilter of
               Today \<Rightarrow> completedDate \<ge> today
             | Yesterday \<Rightarrow> completedDate \<ge> yesterday \<and> completedDate < today
             | Week \<Rightarrow> completedDate \<ge> weekStart))
       (t_subtasks task)"

definition isRecentTask :: "Window \<Rightarrow> int \<Rightarrow> int \<Rightarrow> int \<Rightarrow> Task \<Rightarrow> bool" where
  "isRecentTask updatesFilter today yesterday weekStart task =
     (let taskCreatedDate = t_createdAt task
      in case updatesFilter of
           Today \<Rightarrow> taskCreatedDate \<ge> today
         | Yesterday \<Rightarrow> taskCreatedDate \<ge> yesterday \<and> taskCreatedDate < today
         | Week \<Rightarrow> taskCreatedDate \<ge> weekStart)"

definition filteredTasks ::
  "(int \<Rightarrow> int) \<Rightarrow> Tab \<Rightarrow> Window \<Rightarrow> int \<Rightarrow> Task list \<Rightarrow> Task list" where
  "filteredTasks startOfDay activeTab updatesFilter now tasks =
     (if activeTab = TabUpdates then tasks
      else (let today = startOfDay now;
                yesterday = today - 24 * 60 * 60 * 1000;
                weekStart = today - 7 * 24 * 60 * 60 * 1000
            in filter (\<lambda>task. hasRecentSubtaskActivity updatesFilter today yesterday weekStart task
                              \<or> isRecentTask updatesFilter today yesterday weekStart task) tasks))"

text \<open>
  The window comparison as the specification words it, for an instant \<open>d\<close> and the start
  of the current day \<open>today\<close>.
\<close>

definition windowHolds :: "Window \<Rightarrow> int \<Rightarrow> int \<Rightarrow> bool" where
  "windowHolds w today d =
     (case w of
        Today \<Rightarrow> d \<ge> today
      | Yesterday \<Rightarrow> d \<ge> today - 86400000 \<and> d < today
      | Week \<Rightarrow> d \<ge> today - 7 * 86400000)"

section \<open>Building the tasks from fetched data: \<open>fetchUpdates\<close>\<close>

text \<open>
  JavaScript's truthiness of a JSON value, and of a property that may be missing.
\<close>

definition truthy :: "json \<Rightarrow> bool" where
  "truthy v =
     (case v of
        JNull \<Rightarrow> False
      | JBool b \<Rightarrow> b
      | JNum n \<Rightarrow> n \<noteq> 0
      | JStr s \<Rightarrow> s \<noteq> []
      | JArr xs \<Rightarrow> True
      | JObj kvs \<Rightarrow> True)"

definition truthy_opt :: "json option \<Rightarrow> bool" where
  "truthy_opt v = (case v of None \<Rightarrow> False | Some x \<Rightarrow> truthy x)"

text \<open>
  Reading the property \<open>name\<close> of a value that is not \<open>null\<close>. Only the names
  \<open>title\<close>, \<open>steps\<close>, \<open>priority\<close>, \<open>status\<close>, \<open>description\<close>, \<open>step\<close> and \<open>output\<close>
  are read, and none of them is a property of a string, number, boolean or array, so
  the read gives \<open>undefined\<close> on those. Reading a property of \<open>null\<close> throws; that
  case is written out where it can happen.
\<close>

definition getProp :: "json \<Rightarrow> string \<Rightarrow> json option" where
  "getProp v name = (case v of JObj kvs \<Rightarrow> map_of kvs name | _ \<Rightarrow> None)"

text \<open>\<open>v || d\<close> for a property \<open>v\<close> that may be missing.\<close>

definition orElse :: "json option \<Rightarrow> json \<Rightarrow> json" where
  "orElse v d = (case v of None \<Rightarrow> d | Some x \<Rightarrow> if truthy x then x else d)"

text \<open>
  \<open>String.prototype.toLowerCase\<close>. The results are compared with words made of the
  letters a to z and the hyphen only, and no character outside A to Z is lowered to one
  of these letters, so only A to Z are mapped.
\<close>

definition toLowerChar :: "char \<Rightarrow> char" where
  "toLowerChar c =
     (case map_of (zip ''ABCDEFGHIJKLMNOPQRSTUVWXYZ'' ''abcdefghijklmnopqrstuvwxyz'') c of
        None \<Rightarrow> c
      | Some d \<Rightarrow> d)"

definition toLowerCase :: "string \<Rightarrow> string" where
  "toLowerCase s = map toLowerChar s"

text \<open>
  \<open>v ? v.toLowerCase() : d\<close>. A truthy value that is not a string has no
  \<open>toLowerCase\<close> method, and the call throws a TypeError.
\<close>

definition lowerOr :: "json option \<Rightarrow> string \<Rightarrow> error + string" where
  "lowerOr v d =
     (case v of
        None \<Rightarrow> Inr d
      | Some x \<Rightarrow>
          (if truthy x
           then (case x of JStr s \<Rightarrow> Inr (toLowerCase s) | _ \<Rightarrow> Inl TypeError)
           else Inr d))"

text \<open>A number in a template literal: decimal digits, with a sign when negative.\<close>

definition digit :: "nat \<Rightarrow> char" where
  "digit d = ''0123456789'' ! d"

fun show_nat :: "nat \<Rightarrow> string" where
  "show_nat n = (if n < 10 then [digit n] else show_nat (n div 10) @ [digit (n mod 10)])"

declare show_nat.simps [simp del]

definition show_int :: "int \<Rightarrow> string" where
  "show_int i = (if i < 0 then CHR ''-'' # show_nat (nat (- i)) else show_nat (nat i))"

text \<open>The callback of the \<open>map\<close> over \<open>toolData.steps\<close> (lines 245 to 255).\<close>

definition buildSubtask :: "clock \<Rightarrow> nat \<Rightarrow> nat \<Rightarrow> json \<Rightarrow> nat \<Rightarrow> error + (SubTask \<times> nat)" where
  "buildSubtask clk index subIndex step k =
     (if step = JNull then Inl TypeError
      else (case lowerOr (getProp step ''status'') ''pending'' of
              Inl e \<Rightarrow> Inl e
            | Inr status \<Rightarrow>
                Inr (\<lparr> st_id = show_int (clk k) @ ''-'' @ show_nat index @ ''-'' @ show_nat subIndex,
                       st_title = orElse (getProp step ''step'') (JStr (''Step '' @ show_nat (subIndex + 1))),
                       st_status = (if status = ''completed'' then Completed
                                    else if status = ''in-progress'' then InProgress
                                    else Pending),
                       st_output = getProp step ''output'',
                       st_description = getProp step ''description'',
                       st_completedAt = (if status = ''completed'' then Some (clk (Suc k)) else None) \<rparr>,
                     if status = ''completed'' then Suc (Suc k) else Suc k)))"

fun buildSubtasks ::
  "clock \<Rightarrow> nat \<Rightarrow> nat \<Rightarrow> json list \<Rightarrow> nat \<Rightarrow> error + (SubTask list \<times> nat)" where
  "buildSubtasks clk index subIndex [] k = Inr ([], k)"
| "buildSubtasks clk index subIndex (step # steps) k =
     (case buildSubtask clk index subIndex step k of
        Inl e \<Rightarrow> Inl e
      | Inr (st, k1) \<Rightarrow>
          (case buildSubtasks clk index (Suc subIndex) steps k1 of
             Inl e \<Rightarrow> Inl e
           | Inr (sts, k2) \<Rightarrow> Inr (st # sts, k2)))"

text \<open>
  The callback of the \<open>map\<close> over the updates (lines 239 to 269): \<open>None\<close> is the
  \<open>null\<close> returned for an item that is skipped.
\<close>

definition buildTask :: "clock \<Rightarrow> nat \<Rightarrow> json \<Rightarrow> nat \<Rightarrow> error + (Task option \<times> nat)" where
  "buildTask clk index toolData k =
     (if \<not> truthy toolData \<or> \<not> truthy_opt (getProp toolData ''title'') then Inr (None, k)
      else (case getProp toolData ''steps'' of
              Some (JArr steps) \<Rightarrow>
                (case buildSubtasks clk index 0 steps k of
                   Inl e \<Rightarrow> Inl e
                 | Inr (subtasks, k1) \<Rightarrow>
                     (case lowerOr (getProp toolData ''priority'') ''medium'' of
                        Inl e \<Rightarrow> Inl e
                      | Inr priority \<Rightarrow>
                          (case lowerOr (getProp toolData ''status'') ''pending'' of
                             Inl e \<Rightarrow> Inl e
                           | Inr status \<Rightarrow>
                               Inr (Some \<lparr> t_id = show_int (clk k1) @ ''-'' @ show_nat index,
                                            t_title = orElse (getProp toolData ''title'') (JStr ''Untitled Task''),
                                            t_description = orElse (getProp toolData ''description'')
                                                              (JStr ''No description provided.''),
                                            t_status = (if status = ''completed'' then Completed
                                                        else if status = ''in-progress'' then InProgress
                                                        else Pending),
                                            t_priority = (if priority = ''high'' then High
                                                          else if priority = ''low'' then Low
                                                          else Medium),
                                            t_createdAt = clk (Suc k1),
                                            t_subtasks = subtasks \<rparr>,
                                    Suc (Suc k1)))))
            | _ \<Rightarrow> Inr (None, k)))"

fun buildTasks ::
  "clock \<Rightarrow> nat \<Rightarrow> json list \<Rightarrow> nat \<Rightarrow> error + (Task option list \<times> nat)" where
  "buildTasks clk index [] k = Inr ([], k)"
| "buildTasks clk index (toolData # rest) k =
     (case buildTask clk index toolData k of
        Inl e \<Rightarrow> Inl e
      | Inr (t, k1) \<Rightarrow>
          (case buildTasks clk (Suc index) rest k1 of
             Inl e \<Rightarrow> Inl e
           | Inr (ts, k2) \<Rightarrow> Inr (t # ts, k2)))"

text \<open>\<open>.filter(task => task !== null)\<close>.\<close>

fun dropNulls :: "'a option list \<Rightarrow> 'a list" where
  "dropNulls [] = []"
| "dropNulls (None # xs) = dropNulls xs"
| "dropNulls (Some x # xs) = x # dropNulls xs"

text \<open>
  \<open>fetchUpdates\<close>, from the value \<open>data\<close> that \<open>fetchDailyUpdates\<close> delivered. The result
  is the new content of \<open>tasks\<close>; a TypeError thrown while mapping rejects the promise
  of \<open>fetchUpdates\<close> before \<open>setTasks\<close> is reached.
\<close>

definition updatesOf :: "json \<Rightarrow> json list" where
  "updatesOf data = (case data of JArr xs \<Rightarrow> xs | _ \<Rightarrow> [data])"

definition fetchUpdates :: "clock \<Rightarrow> json \<Rightarrow> Task list \<Rightarrow> nat \<Rightarrow> error + (Task list \<times> nat)" where
  "fetchUpdates clk data tasks k =
     (if truthy data
      then (let updates = updatesOf data
            in if length updates > 0 \<and> truthy (updates ! 0)
               then (case buildTasks clk 0 updates k of
                       Inl e \<Rightarrow> Inl e
                     | Inr (mapped, k') \<Rightarrow> Inr (dropNulls mapped, k'))
               else Inr ([], k))
      else Inr (tasks, k))"

text \<open>Every identifier of a task list: each task's id followed by its subtasks' ids.\<close>

definition all_ids :: "Task list \<Rightarrow> string list" where
  "all_ids tasks = concat (map (\<lambda>t. t_id t # map st_id (t_subtasks t)) tasks)"

section \<open>Examples and the specification's wording\<close>

text \<open>
  A small collection for the examples: a pending task with a completed and a pending
  subtask, a task that was set to completed by hand over a pending subtask, and a pending
  task without subtasks; and a clock that advances by one millisecond at each reading.
\<close>

definition exampleSub :: "string \<Rightarrow> Status \<Rightarrow> int option \<Rightarrow> SubTask" where
  "exampleSub i s c =
     \<lparr> st_id = i, st_title = JStr ''Backup'', st_status = s, st_output = None,
       st_description = None, st_completedAt = c \<rparr>"

definition exampleTask :: "string \<Rightarrow> Status \<Rightarrow> int \<Rightarrow> SubTask list \<Rightarrow> Task" where
  "exampleTask i s c subs =
     \<lparr> t_id = i, t_title = JStr ''Patch server'', t_description = JStr ''No description provided.'',
       t_status = s, t_priority = High, t_createdAt = c, t_subtasks = subs \<rparr>"

definition exampleTasks :: "Task list" where
  "exampleTasks =
     [exampleTask ''t1'' Pending 0
        [exampleSub ''a'' Completed (Some 5), exampleSub ''b'' Pending None],
      exampleTask ''t2'' Completed 0 [exampleSub ''c'' Pending None],
      exampleTask ''t3'' Pending 0 []]"

definition exampleClock :: clock where
  "exampleClock n = 1000 + int n"

text \<open>
  The specification's criterion of the time window for one task, and the start of the day
  in universal time as an instance of the platform's calendar.
\<close>

definition specIncludes :: "Window \<Rightarrow> int \<Rightarrow> Task \<Rightarrow> bool" where
  "specIncludes w today task =
     ((\<exists>s\<in>set (t_subtasks task).
         case st_completedAt s of None \<Rightarrow> False | Some d \<Rightarrow> windowHolds w today d)
      \<or> windowHolds w today (t_createdAt task))"

definition utcStartOfDay :: "int \<Rightarrow> int" where
  "utcStartOfDay now = now - now mod 86400000"

text \<open>
  The specification's reading of the builder. A word matches a keyword (written in small
  letters) without regard to case when it has the keyword's length and each of its
  characters is the keyword's character at that place or the capital of it.
\<close>

definition capitalOf :: "char \<Rightarrow> char" where
  "capitalOf d =
     (case map_of (zip ''abcdefghijklmnopqrstuvwxyz'' ''ABCDEFGHIJKLMNOPQRSTUVWXYZ'') d of
        None \<Rightarrow> d
      | Some c \<Rightarrow> c)"

definition ciMatch :: "string \<Rightarrow> string \<Rightarrow> bool" where
  "ciMatch s w = list_all2 (\<lambda>c d. c = d \<or> c = capitalOf d) s w"

text \<open>
  The status and the priority the specification gives a record: the keyword that the
  property matches, and \<open>Pending\<close> or \<open>Medium\<close> for every other or missing value.
\<close>

definition specStatus :: "json option \<Rightarrow> Status" where
  "specStatus v =
     (case v of
        Some (JStr s) \<Rightarrow>
          (if ciMatch s ''completed'' then Completed
           else if ciMatch s ''in-progress'' then InProgress
           else Pending)
      | _ \<Rightarrow> Pending)"

definition specPriority :: "json option \<Rightarrow> Priority" where
  "specPriority v =
     (case v of
        Some (JStr s) \<Rightarrow>
          (if ciMatch s ''high'' then High
           else if ciMatch s ''low'' then Low
           else Medium)
      | _ \<Rightarrow> Medium)"

text \<open>
  The steps and the title of a record, and the records the builder keeps: a truthy value
  with a truthy title and an array of steps.
\<close>

definition stepsOf :: "json \<Rightarrow> json list" where
  "stepsOf r = (case getProp r ''steps'' of Some (JArr steps) \<Rightarrow> steps | _ \<Rightarrow> [])"

definition titleOf :: "json \<Rightarrow> json" where
  "titleOf r = (case getProp r ''title'' of Some v \<Rightarrow> v | None \<Rightarrow> JNull)"

definition validRecord :: "json \<Rightarrow> bool" where
  "validRecord r =
     (truthy r \<and> truthy_opt (getProp r ''title'') \<and>
      (case getProp r ''steps'' of Some (JArr steps) \<Rightarrow> True | _ \<Rightarrow> False))"

text \<open>
  The values on which \<open>v ? v.toLowerCase() : d\<close> does not throw, the steps whose
  callback does not throw, and the records that build without a TypeError.
\<close>

definition stringOrFalsy :: "json option \<Rightarrow> bool" where
  "stringOrFalsy v =
     (case v of None \<Rightarrow> True | Some x \<Rightarrow> (case x of JStr s \<Rightarrow> True | _ \<Rightarrow> \<not> truthy x))"

definition stepBuilds :: "json \<Rightarrow> bool" where
  "stepBuilds step = (step \<noteq> JNull \<and> stringOrFalsy (getProp step ''status''))"

definition buildsWithoutError :: "json \<Rightarrow> bool" where
  "buildsWithoutError r =
     (list_all stepBuilds (stepsOf r) \<and> stringOrFalsy (getProp r ''priority'') \<and>
      stringOrFalsy (getProp r ''status''))"

text \<open>
  The consistency of \<open>completedAt\<close> with the status, for a subtask and for every subtask
  of a collection.
\<close>

definition completedAtConsistent :: "SubTask \<Rightarrow> bool" where
  "completedAtConsistent s = ((st_completedAt s \<noteq> None) = (st_status s = Completed))"

definition subtasksConsistent :: "Task list \<Rightarrow> bool" where
  "subtasksConsistent tasks = list_all (\<lambda>t. list_all completedAtConsistent (t_subtasks t)) tasks"

text \<open>
  Reading a decimal numeral back, and the identifiers that carry the position \<open>i\<close> of a
  record: the id of the task built at \<open>i\<close> and the ids of its subtasks. Both serve the
  proof that identifiers do not collide.
\<close>

definition digitValue :: "char \<Rightarrow> nat" where
  "digitValue c = of_char c - 48"

definition read_nat :: "string \<Rightarrow> nat" where
  "read_nat s = foldl (\<lambda>a c. 10 * a + digitValue c) 0 s"

inductive idAt :: "nat \<Rightarrow> string \<Rightarrow> bool" where
  task: "idAt i (show_int T @ ''-'' @ show_nat i)"
| sub: "idAt i (show_int T @ ''-'' @ show_nat i @ ''-'' @ show_nat j)"

text \<open>
  Fetched data for the examples: the record of the specification's scenario A with the
  keywords in mixed case and a step without a name, a record with a \<open>null\<close> step, a record
  without a title, and a clock that stands still.
\<close>

definition exampleRecord :: json where
  "exampleRecord =
     JObj [(''title'', JStr ''Patch server''), (''status'', JStr ''in-progress''),
           (''priority'', JStr ''HIGH''),
           (''steps'', JArr [JObj [(''step'', JStr ''Backup''), (''status'', JStr ''Completed'')],
                             JObj [(''status'', JStr ''pending'')]])]"

definition nullStepRecord :: json where
  "nullStepRecord = JObj [(''title'', JStr ''Rotate keys''), (''steps'', JArr [JNull])]"

definition untitledRecord :: json where
  "untitledRecord = JObj [(''steps'', JArr [])]"

definition frozenClock :: clock where
  "frozenClock n = 1730000000000"

definition exampleData :: json where
  "exampleData = JArr [untitledRecord, exampleRecord, JNull, exampleRecord]"

text \<open>
  What the specification asks of a built subtask at position \<open>i\<close> and of a built task,
  given the step and the record they are built from.
\<close>

definition specSubtask :: "nat \<Rightarrow> json \<Rightarrow> SubTask \<Rightarrow> bool" where
  "specSubtask i step s =
     (st_status s = specStatus (getProp step ''status'') \<and>
      (getProp step ''step'' = None \<longrightarrow> st_title s = JStr (''Step '' @ show_nat (i + 1))))"

definition specTask :: "json \<Rightarrow> Task \<Rightarrow> bool" where
  "specTask r t =
     (t_priority t = specPriority (getProp r ''priority'') \<and>
      t_status t = specStatus (getProp r ''status'') \<and>
      length (t_subtasks t) = length (stepsOf r) \<and>
      list_all (\<lambda>i. specSubtask i (stepsOf r ! i) (t_subtasks t ! i)) [0..<length (stepsOf r)])"

text \<open>
  A subtask is stamped within the readings \<open>k\<close> to \<open>k'\<close> of the clock when its
  \<open>completedAt\<close> is one of those readings if it is completed, and missing otherwise: the
  time is the current time of the call that took the readings.
\<close>

definition stampedWithin :: "clock \<Rightarrow> nat \<Rightarrow> nat \<Rightarrow> SubTask \<Rightarrow> bool" where
  "stampedWithin clk k k' s =
     (if st_status s = Completed
      then st_completedAt s \<in> set (map (\<lambda>n. Some (clk n)) [k..<k'])
      else st_completedAt s = None)"

text \<open>
  Two more records for the examples: one with an unknown priority, no status, a step
  whose status is in capitals and a step whose status is \<open>null\<close>, both steps unnamed; and
  one whose priority is a number.
\<close>

definition plainRecord :: json where
  "plainRecord =
     JObj [(''title'', JStr ''Rotate keys''), (''priority'', JStr ''urgent''),
           (''steps'', JArr [JObj [(''status'', JStr ''IN-PROGRESS'')], JObj [(''status'', JNull)]])]"

definition numericPriorityRecord :: json where
  "numericPriorityRecord = JObj [(''title'', JStr ''x''), (''priority'', JNum 5), (''steps'', JArr [])]"

section \<open>The status aggregation and the filtered view, verified\<close>

lemma map_clock_Cons:
  "map_clock f (x # xs) k =
     (fst (f x k) # fst (map_clock f xs (snd (f x k))), snd (map_clock f xs (snd (f x k))))"
  by (simp split: prod.splits)

lemma length_map_clock: "length (fst (map_clock f xs k)) = length xs"
  by (induction xs arbitrary: k) (simp_all add: map_clock_Cons del: map_clock.simps(2))

lemma map_clock_nth:
  "i < length xs \<Longrightarrow> \<exists>k'. fst (map_clock f xs k) ! i = fst (f (xs ! i) k')"
proof (induction xs arbitrary: i k)
  case Nil
  then show ?case by simp
next
  case (Cons x xs)
  show ?case
  proof (cases i)
    case 0
    then show ?thesis by (auto simp: map_clock_Cons simp del: map_clock.simps(2))
  next
    case (Suc n)
    with Cons.prems have "n < length xs" by simp
    from Cons.IH [OF this] obtain k' where
      "fst (map_clock f xs (snd (f x k))) ! n = fst (f (xs ! n) k')" by blast
    with Suc show ?thesis by (auto simp: map_clock_Cons simp del: map_clock.simps(2))
  qed
qed

lemma map_clock_unchanged:
  "(\<And>x k. x \<in> set xs \<Longrightarrow> f x k = (x, k)) \<Longrightarrow> map_clock f xs k = (xs, k)"
  by (induction xs arbitrary: k) auto

lemma filter_all_length: "(length (filter P xs) = length xs) = (\<forall>x\<in>set xs. P x)"
proof (induction xs)
  case Nil
  then show ?case by simp
next
  case (Cons x xs)
  have "length (filter P xs) \<le> length xs" by simp
  then have "length (filter P xs) \<noteq> Suc (length xs)" by linarith
  with Cons show ?case by auto
qed

lemma filter_pos_length: "(0 < length (filter P xs)) = (\<exists>x\<in>set xs. P x)"
  by (induction xs) auto

lemma parentStatus_Completed:
  "(parentStatus xs = Completed) = (\<forall>s\<in>set xs. st_status s = Completed)"
  by (simp add: parentStatus_def Let_def filter_all_length)

lemma parentStatus_Pending:
  "xs \<noteq> [] \<Longrightarrow>
   (parentStatus xs = Pending) = (\<forall>s\<in>set xs. st_status s \<noteq> Completed \<and> st_status s \<noteq> InProgress)"
  unfolding parentStatus_def Let_def filter_all_length filter_pos_length
  by (cases xs) auto

lemma updateSubtask_fst:
  "fst (updateSubtask clk subtaskId newStatus s k) =
     (if st_id s = subtaskId
      then s\<lparr>st_status := newStatus,
             st_completedAt := (if newStatus = Completed then Some (clk k) else None)\<rparr>
      else s)"
  by (simp add: updateSubtask_def)

lemma updateSubtaskOfTask_eq:
  "updateSubtaskOfTask clk taskId subtaskId newStatus task k =
     (if t_id task = taskId
      then (task\<lparr>t_subtasks := fst (map_clock (updateSubtask clk subtaskId newStatus) (t_subtasks task) k),
                  t_status := parentStatus
                    (fst (map_clock (updateSubtask clk subtaskId newStatus) (t_subtasks task) k))\<rparr>,
            snd (map_clock (updateSubtask clk subtaskId newStatus) (t_subtasks task) k))
      else (task, k))"
  by (simp add: updateSubtaskOfTask_def split: prod.splits)

lemma updated_subtask_nth:
  assumes "j < length subs"
  shows "\<exists>k'. fst (map_clock (updateSubtask clk subtaskId newStatus) subs k) ! j =
           (if st_id (subs ! j) = subtaskId
            then (subs ! j)\<lparr>st_status := newStatus,
                    st_completedAt := (if newStatus = Completed then Some (clk k') else None)\<rparr>
            else subs ! j)"
proof -
  from map_clock_nth [OF assms] obtain k' where
    "fst (map_clock (updateSubtask clk subtaskId newStatus) subs k) ! j =
       fst (updateSubtask clk subtaskId newStatus (subs ! j) k')" by blast
  then show ?thesis by (auto simp: updateSubtask_fst)
qed

lemma updated_subtask_status:
  assumes "j < length subs"
  shows "st_status (fst (map_clock (updateSubtask clk subtaskId newStatus) subs k) ! j) =
           (if st_id (subs ! j) = subtaskId then newStatus else st_status (subs ! j))"
    and "st_id (fst (map_clock (updateSubtask clk subtaskId newStatus) subs k) ! j) = st_id (subs ! j)"
proof -
  from updated_subtask_nth [OF assms] obtain k' where
    e: "fst (map_clock (updateSubtask clk subtaskId newStatus) subs k) ! j =
           (if st_id (subs ! j) = subtaskId
            then (subs ! j)\<lparr>st_status := newStatus,
                    st_completedAt := (if newStatus = Completed then Some (clk k') else None)\<rparr>
            else subs ! j)" by blast
  show "st_status (fst (map_clock (updateSubtask clk subtaskId newStatus) subs k) ! j) =
           (if st_id (subs ! j) = subtaskId then newStatus else st_status (subs ! j))"
    by (simp add: e)
  show "st_id (fst (map_clock (updateSubtask clk subtaskId newStatus) subs k) ! j) = st_id (subs ! j)"
    by (simp add: e)
qed

lemma updateSubtaskStatus_nth:
  assumes "i < length tasks"
  shows "\<exists>k'. fst (updateSubtaskStatus clk taskId subtaskId newStatus tasks k) ! i =
           fst (updateSubtaskOfTask clk taskId subtaskId newStatus (tasks ! i) k')"
  unfolding updateSubtaskStatus_def by (rule map_clock_nth [OF assms])

lemma length_updateSubtaskStatus:
  "length (fst (updateSubtaskStatus clk taskId subtaskId newStatus tasks k)) = length tasks"
  by (simp add: updateSubtaskStatus_def length_map_clock)

lemma map_clock_list_update:
  "i < length xs \<Longrightarrow> (\<And>k. f y k = f (xs ! i) k) \<Longrightarrow> map_clock f (xs[i := y]) k = map_clock f xs k"
proof (induction xs arbitrary: i k)
  case Nil
  then show ?case by simp
next
  case (Cons x xs)
  show ?case
  proof (cases i)
    case 0
    with Cons.prems(2) show ?thesis by (simp add: map_clock_Cons del: map_clock.simps(2))
  next
    case (Suc n)
    with Cons.prems have n: "n < length xs" and f: "\<And>k. f y k = f (xs ! n) k" by simp_all
    from Cons.IH [OF n f] Suc show ?thesis
      by (simp add: map_clock_Cons del: map_clock.simps(2))
  qed
qed

lemma updateSubtaskOfTask_forgets_status:
  "t_id task = taskId \<Longrightarrow>
   updateSubtaskOfTask clk taskId subtaskId newStatus (task\<lparr>t_status := s0\<rparr>) k =
   updateSubtaskOfTask clk taskId subtaskId newStatus task k"
  by (simp add: updateSubtaskOfTask_eq)

text \<open>
  Claim C1. For a task of the collection that \<open>updateSubtaskStatus\<close> addresses and that has
  at least one subtask, the status after the call is \<open>Completed\<close> exactly when every
  subtask is completed, \<open>Pending\<close> exactly when no subtask is completed or in progress, and
  \<open>InProgress\<close> otherwise, where the subtasks are the ones after the call: those with the
  addressed id carry the new status, the others are as before. The status the task had
  before the call has no influence on the result.
\<close>

theorem derived_status_after_subtask_update:
  assumes "i < length tasks" and "t_id (tasks ! i) = taskId" and "t_subtasks (tasks ! i) \<noteq> []"
  shows "(let t' = fst (updateSubtaskStatus clk taskId subtaskId newStatus tasks k) ! i in
          (t_status t' = Completed \<longleftrightarrow> (\<forall>s\<in>set (t_subtasks t'). st_status s = Completed)) \<and>
          (t_status t' = Pending \<longleftrightarrow>
             (\<forall>s\<in>set (t_subtasks t'). st_status s \<noteq> Completed \<and> st_status s \<noteq> InProgress)) \<and>
          (t_status t' = InProgress \<longleftrightarrow>
             \<not> (\<forall>s\<in>set (t_subtasks t'). st_status s = Completed) \<and>
             \<not> (\<forall>s\<in>set (t_subtasks t'). st_status s \<noteq> Completed \<and> st_status s \<noteq> InProgress)) \<and>
          length (t_subtasks t') = length (t_subtasks (tasks ! i)) \<and>
          (\<forall>j<length (t_subtasks (tasks ! i)).
             st_status (t_subtasks t' ! j) =
               (if st_id (t_subtasks (tasks ! i) ! j) = subtaskId then newStatus
                else st_status (t_subtasks (tasks ! i) ! j))) \<and>
          (\<forall>s0. fst (updateSubtaskStatus clk taskId subtaskId newStatus
                       (tasks[i := (tasks ! i)\<lparr>t_status := s0\<rparr>]) k) ! i = t'))"
proof -
  define t' where "t' = fst (updateSubtaskStatus clk taskId subtaskId newStatus tasks k) ! i"
  from updateSubtaskStatus_nth [OF assms(1)] obtain k' where
    "t' = fst (updateSubtaskOfTask clk taskId subtaskId newStatus (tasks ! i) k')"
    unfolding t'_def by blast
  with assms(2) have st: "t_status t' = parentStatus (t_subtasks t')"
    and subs: "t_subtasks t' =
      fst (map_clock (updateSubtask clk subtaskId newStatus) (t_subtasks (tasks ! i)) k')"
    by (simp_all add: updateSubtaskOfTask_eq)
  have len: "length (t_subtasks t') = length (t_subtasks (tasks ! i))"
    by (simp add: subs length_map_clock)
  with assms(3) have ne: "t_subtasks t' \<noteq> []" by auto
  have c: "t_status t' = Completed \<longleftrightarrow> (\<forall>s\<in>set (t_subtasks t'). st_status s = Completed)"
    by (simp add: st parentStatus_Completed)
  have p: "t_status t' = Pending \<longleftrightarrow>
     (\<forall>s\<in>set (t_subtasks t'). st_status s \<noteq> Completed \<and> st_status s \<noteq> InProgress)"
    by (simp add: st parentStatus_Pending [OF ne])
  have ip: "t_status t' = InProgress \<longleftrightarrow>
             \<not> (\<forall>s\<in>set (t_subtasks t'). st_status s = Completed) \<and>
             \<not> (\<forall>s\<in>set (t_subtasks t'). st_status s \<noteq> Completed \<and> st_status s \<noteq> InProgress)"
    using c p by (cases "t_status t'") auto
  have each: "\<forall>j<length (t_subtasks (tasks ! i)).
             st_status (t_subtasks t' ! j) =
               (if st_id (t_subtasks (tasks ! i) ! j) = subtaskId then newStatus
                else st_status (t_subtasks (tasks ! i) ! j))"
    by (simp add: subs updated_subtask_status)
  have forget: "\<forall>s0. fst (updateSubtaskStatus clk taskId subtaskId newStatus
                       (tasks[i := (tasks ! i)\<lparr>t_status := s0\<rparr>]) k) ! i = t'"
    unfolding t'_def updateSubtaskStatus_def
    using map_clock_list_update [OF assms(1), of "updateSubtaskOfTask clk taskId subtaskId newStatus"]
      updateSubtaskOfTask_forgets_status [OF assms(2)]
    by simp
  from c p ip len each forget show ?thesis
    unfolding Let_def t'_def by blast
qed

lemmas example_defs = exampleTasks_def exampleTask_def exampleSub_def exampleClock_def
  updateSubtaskStatus_def updateSubtaskOfTask_def updateSubtask_def parentStatus_def
  updateTaskStatus_def

theorem derived_status_after_subtask_update_witness:
  "0 < length exampleTasks \<and> t_id (exampleTasks ! 0) = ''t1'' \<and> t_subtasks (exampleTasks ! 0) \<noteq> [] \<and>
   t_status (fst (updateSubtaskStatus exampleClock ''t1'' ''b'' InProgress exampleTasks 0) ! 0) = InProgress \<and>
   t_status (fst (updateSubtaskStatus exampleClock ''t1'' ''b'' Completed exampleTasks 0) ! 0) = Completed"
  using derived_status_after_subtask_update
    [of 0 exampleTasks "''t1''" exampleClock "''b''" InProgress 0]
  by (simp add: example_defs)

text \<open>
  Claim C2 says that a task without subtasks keeps its status when \<open>updateSubtaskStatus\<close>
  addresses it. The third example task has no subtasks and is pending; the call makes it
  completed, because the count of completed subtasks (0) equals the number of subtasks (0).
\<close>

theorem zero_subtasks_counterexample:
  "t_status (exampleTasks ! 2) = Pending \<and> t_subtasks (exampleTasks ! 2) = [] \<and>
   t_status (fst (updateSubtaskStatus exampleClock ''t3'' ''x'' InProgress exampleTasks 0) ! 2) = Completed"
  by (simp add: example_defs)

text \<open>
  Claim C2, amended. A task without subtasks that \<open>updateSubtaskStatus\<close> addresses gets the
  status \<open>Completed\<close>, whatever its status was and whatever subtask id and new status the
  call names; nothing else of the task changes.
\<close>

theorem zero_subtasks_becomes_completed:
  assumes "i < length tasks" and "t_id (tasks ! i) = taskId" and "t_subtasks (tasks ! i) = []"
  shows "fst (updateSubtaskStatus clk taskId subtaskId newStatus tasks k) ! i =
           (tasks ! i)\<lparr>t_status := Completed\<rparr>"
proof -
  from updateSubtaskStatus_nth [OF assms(1)] obtain k' where
    "fst (updateSubtaskStatus clk taskId subtaskId newStatus tasks k) ! i =
       fst (updateSubtaskOfTask clk taskId subtaskId newStatus (tasks ! i) k')" by blast
  with assms(2,3) show ?thesis
    by (simp add: updateSubtaskOfTask_eq parentStatus_def)
qed

theorem zero_subtasks_becomes_completed_witness:
  "2 < length exampleTasks \<and> t_id (exampleTasks ! 2) = ''t3'' \<and> t_subtasks (exampleTasks ! 2) = [] \<and>
   fst (updateSubtaskStatus exampleClock ''t3'' ''x'' InProgress exampleTasks 0) ! 2 =
     (exampleTasks ! 2)\<lparr>t_status := Completed\<rparr>"
  using zero_subtasks_becomes_completed [of 2 exampleTasks "''t3''" exampleClock "''x''" InProgress 0]
  by (simp add: example_defs)

lemma updated_subtasks_unknown:
  "subtaskId \<notin> st_id ` set subs \<Longrightarrow>
   map_clock (updateSubtask clk subtaskId newStatus) subs k = (subs, k)"
  by (rule map_clock_unchanged) (auto simp: updateSubtask_def)

lemma map_clock_pure:
  "(\<And>x k. x \<in> set xs \<Longrightarrow> f x k = (g x, k)) \<Longrightarrow> map_clock f xs k = (map g xs, k)"
  by (induction xs arbitrary: k) auto

text \<open>
  Claim C4 says that \<open>updateSubtaskStatus\<close> with a subtask id that the addressed task does
  not have returns the collection unchanged. The second example task is completed with one
  pending subtask; a call with its id and an unknown subtask id makes the task pending.
\<close>

theorem unknown_subtask_counterexample:
  "''zzz'' \<notin> st_id ` set (t_subtasks (exampleTasks ! 1)) \<and>
   t_status (exampleTasks ! 1) = Completed \<and>
   t_status (fst (updateSubtaskStatus exampleClock ''t2'' ''zzz'' Completed exampleTasks 0) ! 1) = Pending \<and>
   fst (updateSubtaskStatus exampleClock ''t2'' ''zzz'' Completed exampleTasks 0) \<noteq> exampleTasks"
  by (simp add: example_defs)

text \<open>
  Claim C4, amended. With a task id that no task has, \<open>updateTaskStatus\<close> and
  \<open>updateSubtaskStatus\<close> return the collection unchanged (and no clock reading is taken).
  With a task id that is present and a subtask id that none of the addressed tasks has,
  \<open>updateSubtaskStatus\<close> leaves every subtask and every other task unchanged and sets the
  status of each addressed task to the status derived from its subtasks. The functions have
  no error result: none of them raises.
\<close>

theorem unknown_identifier_behaviour:
  "(taskId \<notin> t_id ` set tasks \<longrightarrow>
      updateTaskStatus taskId newStatus tasks = tasks \<and>
      updateSubtaskStatus clk taskId subtaskId newStatus tasks k = (tasks, k)) \<and>
   ((\<forall>t\<in>set tasks. t_id t = taskId \<longrightarrow> subtaskId \<notin> st_id ` set (t_subtasks t)) \<longrightarrow>
      updateSubtaskStatus clk taskId subtaskId newStatus tasks k =
        (map (\<lambda>t. if t_id t = taskId then t\<lparr>t_status := parentStatus (t_subtasks t)\<rparr> else t) tasks, k))"
proof (intro conjI impI)
  assume a: "taskId \<notin> t_id ` set tasks"
  show "updateTaskStatus taskId newStatus tasks = tasks"
    unfolding updateTaskStatus_def using a by (intro map_idI) auto
  show "updateSubtaskStatus clk taskId subtaskId newStatus tasks k = (tasks, k)"
    unfolding updateSubtaskStatus_def using a
    by (intro map_clock_unchanged) (auto simp: updateSubtaskOfTask_def)
next
  assume a: "\<forall>t\<in>set tasks. t_id t = taskId \<longrightarrow> subtaskId \<notin> st_id ` set (t_subtasks t)"
  show "updateSubtaskStatus clk taskId subtaskId newStatus tasks k =
        (map (\<lambda>t. if t_id t = taskId then t\<lparr>t_status := parentStatus (t_subtasks t)\<rparr> else t) tasks, k)"
    unfolding updateSubtaskStatus_def
  proof (rule map_clock_pure)
    fix x k' assume "x \<in> set tasks"
    with a have "t_id x = taskId \<Longrightarrow> subtaskId \<notin> st_id ` set (t_subtasks x)" by blast
    then show "updateSubtaskOfTask clk taskId subtaskId newStatus x k' =
       (if t_id x = taskId then x\<lparr>t_status := parentStatus (t_subtasks x)\<rparr> else x, k')"
      by (simp add: updateSubtaskOfTask_def updated_subtasks_unknown)
  qed
qed

theorem unknown_identifier_behaviour_witness:
  "''t9'' \<notin> t_id ` set exampleTasks \<and>
   updateTaskStatus ''t9'' Completed exampleTasks = exampleTasks \<and>
   updateSubtaskStatus exampleClock ''t9'' ''a'' Completed exampleTasks 0 = (exampleTasks, 0) \<and>
   t_id (exampleTasks ! 1) = ''t2'' \<and> ''zzz'' \<notin> st_id ` set (t_subtasks (exampleTasks ! 1)) \<and>
   updateSubtaskStatus exampleClock ''t2'' ''zzz'' Completed exampleTasks 0 =
     (exampleTasks[1 := (exampleTasks ! 1)\<lparr>t_status := Pending\<rparr>], 0)"
  using unknown_identifier_behaviour [of "''t9''" exampleTasks Completed exampleClock "''a''" 0]
    unknown_identifier_behaviour [of "''t2''" exampleTasks Completed exampleClock "''zzz''" 0]
  by (simp add: example_defs)






text \<open>
  Claim C5 says that the filtered view holds a task exactly when a subtask's completion
  time or the task's creation time satisfies the window comparison. On the updates tab the
  view holds the third example task, created at instant 0 and without subtasks, for the window
  \<open>Today\<close> of a day in 2024.
\<close>

theorem window_filter_counterexample:
  "exampleTasks ! 2 \<in> set (filteredTasks utcStartOfDay TabUpdates Today 1730000000000 exampleTasks) \<and>
   \<not> specIncludes Today (utcStartOfDay 1730000000000) (exampleTasks ! 2)"
  by (simp add: filteredTasks_def specIncludes_def windowHolds_def utcStartOfDay_def
      exampleTasks_def exampleTask_def exampleSub_def)

lemma window_cases:
  "(case w of Today \<Rightarrow> d \<ge> today
            | Yesterday \<Rightarrow> d \<ge> today - 24 * 60 * 60 * 1000 \<and> d < today
            | Week \<Rightarrow> d \<ge> today - 7 * 24 * 60 * 60 * 1000) = windowHolds w today d"
  by (cases w) (simp_all add: windowHolds_def)

text \<open>
  Claim C5, amended. When the active tab is not the updates tab, the filtered view is the
  collection restricted, in order, to the tasks for which a subtask's \<open>completedAt\<close> or the
  task's own \<open>createdAt\<close> satisfies the window comparison (at or after the start of today for
  \<open>Today\<close>; at or after the start of today minus 24 hours and before the start of today for
  \<open>Yesterday\<close>; at or after the start of today minus 7 times 24 hours for \<open>Week\<close>).
\<close>

theorem window_filter_outside_updates_tab:
  assumes "activeTab \<noteq> TabUpdates"
  shows "filteredTasks startOfDay activeTab w now tasks =
           filter (specIncludes w (startOfDay now)) tasks"
proof -
  have "\<And>task. (hasRecentSubtaskActivity w (startOfDay now) (startOfDay now - 24 * 60 * 60 * 1000)
                  (startOfDay now - 7 * 24 * 60 * 60 * 1000) task
               \<or> isRecentTask w (startOfDay now) (startOfDay now - 24 * 60 * 60 * 1000)
                  (startOfDay now - 7 * 24 * 60 * 60 * 1000) task)
             = specIncludes w (startOfDay now) task"
    unfolding hasRecentSubtaskActivity_def isRecentTask_def specIncludes_def Let_def
      list_ex_iff window_cases ..
  with assms show ?thesis by (simp add: filteredTasks_def Let_def)
qed

theorem window_filter_outside_updates_tab_witness:
  "TabTasks \<noteq> TabUpdates \<and>
   filteredTasks utcStartOfDay TabTasks Today 1730000000000 exampleTasks = [] \<and>
   filteredTasks utcStartOfDay TabTasks Week 86400000 exampleTasks = exampleTasks"
  using window_filter_outside_updates_tab [of TabTasks utcStartOfDay Today 1730000000000 exampleTasks]
    window_filter_outside_updates_tab [of TabTasks utcStartOfDay Week 86400000 exampleTasks]
  by (simp add: specIncludes_def windowHolds_def utcStartOfDay_def
      exampleTasks_def exampleTask_def exampleSub_def)

text \<open>
  Claim C10. When the active tab is the updates tab, the filtered view is the whole task
  collection, unchanged, whatever the selected window and the current instant are.
\<close>

theorem updates_tab_shows_all:
  "filteredTasks startOfDay TabUpdates w now tasks = tasks"
  by (simp add: filteredTasks_def)

section \<open>The builder, verified\<close>

lemma digit_cases: "d < 10 \<Longrightarrow> d \<in> {0, 1, 2, 3, 4, 5, 6, 7, 8, 9::nat}"
  by auto

lemma digit_not_dash: "d < 10 \<Longrightarrow> digit d \<noteq> CHR ''-''"
  using digit_cases [of d] by (auto simp: digit_def)

lemma digitValue_digit: "d < 10 \<Longrightarrow> digitValue (digit d) = d"
  using digit_cases [of d] by (auto simp: digit_def digitValue_def)

lemma show_nat_no_dash: "CHR ''-'' \<notin> set (show_nat n)"
proof (induction n rule: show_nat.induct)
  case (1 n)
  show ?case
  proof (cases "n < 10")
    case True
    then show ?thesis using digit_not_dash [of n] by (auto simp: show_nat.simps [of n])
  next
    case False
    with 1 have "CHR ''-'' \<notin> set (show_nat (n div 10))" by simp
    moreover have "digit (n mod 10) \<noteq> CHR ''-''" by (rule digit_not_dash) simp
    ultimately show ?thesis using False by (auto simp: show_nat.simps [of n])
  qed
qed

lemma show_nat_nonempty: "show_nat n \<noteq> []"
  by (simp add: show_nat.simps [of n])

lemma read_nat_snoc: "read_nat (s @ [c]) = 10 * read_nat s + digitValue c"
  by (simp add: read_nat_def)

lemma read_show_nat: "read_nat (show_nat n) = n"
proof (induction n rule: show_nat.induct)
  case (1 n)
  show ?case
  proof (cases "n < 10")
    case True
    then show ?thesis by (simp add: show_nat.simps [of n] read_nat_def digitValue_digit)
  next
    case False
    with 1 have "read_nat (show_nat (n div 10)) = n div 10" by simp
    then show ?thesis using False
      by (simp add: show_nat.simps [of n] read_nat_snoc digitValue_digit)
  qed
qed

lemma show_nat_inj: "show_nat n = show_nat m \<Longrightarrow> n = m"
  by (metis read_show_nat)

lemma split_last_dash:
  assumes "CHR ''-'' \<notin> set a" and "CHR ''-'' \<notin> set b"
    and "x @ CHR ''-'' # a = y @ CHR ''-'' # b"
  shows "x = y \<and> a = b"
proof -
  from assms(3) have "rev (x @ CHR ''-'' # a) = rev (y @ CHR ''-'' # b)" by simp
  then have e: "rev a @ CHR ''-'' # rev x = rev b @ CHR ''-'' # rev y" by simp
  have "takeWhile (\<lambda>c. c \<noteq> CHR ''-'') (rev a @ CHR ''-'' # rev x) = rev a"
    using assms(1) by (auto simp: takeWhile_tail)
  moreover have "takeWhile (\<lambda>c. c \<noteq> CHR ''-'') (rev b @ CHR ''-'' # rev y) = rev b"
    using assms(2) by (auto simp: takeWhile_tail)
  ultimately have "rev a = rev b" using e by simp
  then have "a = b" by simp
  with assms(3) show ?thesis by simp
qed

lemma show_int_nonempty: "show_int T \<noteq> []"
  by (simp add: show_int_def show_nat_nonempty)

lemma show_int_tail_no_dash: "CHR ''-'' \<notin> set (tl (show_int T))"
proof (cases "T < 0")
  case True
  then show ?thesis by (simp add: show_int_def show_nat_no_dash)
next
  case False
  have "set (tl (show_nat (nat T))) \<subseteq> set (show_nat (nat T))"
    by (cases "show_nat (nat T)") auto
  with False show ?thesis using show_nat_no_dash [of "nat T"] by (auto simp: show_int_def)
qed

lemma task_id_index:
  assumes "show_int T @ ''-'' @ show_nat i = show_int T' @ ''-'' @ show_nat i'"
  shows "i = i'"
proof -
  from assms have "show_int T @ CHR ''-'' # show_nat i = show_int T' @ CHR ''-'' # show_nat i'" by simp
  from split_last_dash [OF show_nat_no_dash show_nat_no_dash this]
  show ?thesis by (simp add: show_nat_inj)
qed

lemma sub_id_index:
  assumes "show_int T @ ''-'' @ show_nat i @ ''-'' @ show_nat j =
           show_int T' @ ''-'' @ show_nat i' @ ''-'' @ show_nat j'"
  shows "i = i' \<and> j = j'"
proof -
  from assms have "(show_int T @ CHR ''-'' # show_nat i) @ CHR ''-'' # show_nat j =
     (show_int T' @ CHR ''-'' # show_nat i') @ CHR ''-'' # show_nat j'" by simp
  from split_last_dash [OF show_nat_no_dash show_nat_no_dash this]
  have a: "show_int T @ CHR ''-'' # show_nat i = show_int T' @ CHR ''-'' # show_nat i'"
    and b: "show_nat j = show_nat j'" by simp_all
  from split_last_dash [OF show_nat_no_dash show_nat_no_dash a] b
  show ?thesis by (simp add: show_nat_inj)
qed

lemma task_id_not_sub_id:
  "show_int T @ ''-'' @ show_nat i \<noteq> show_int T' @ ''-'' @ show_nat i' @ ''-'' @ show_nat j'"
proof
  assume "show_int T @ ''-'' @ show_nat i = show_int T' @ ''-'' @ show_nat i' @ ''-'' @ show_nat j'"
  then have "show_int T @ CHR ''-'' # show_nat i =
     (show_int T' @ CHR ''-'' # show_nat i') @ CHR ''-'' # show_nat j'" by simp
  from split_last_dash [OF show_nat_no_dash show_nat_no_dash this]
  have e: "show_int T = show_int T' @ CHR ''-'' # show_nat i'" by simp
  obtain c cs where "show_int T' = c # cs" using show_int_nonempty [of T'] by (cases "show_int T'") auto
  with e have "CHR ''-'' \<in> set (tl (show_int T))" by simp
  with show_int_tail_no_dash [of T] show False by simp
qed

lemma idAt_unique: "idAt i s \<Longrightarrow> idAt i' s \<Longrightarrow> i = i'"
proof (induction rule: idAt.induct)
  case (task i T)
  from task show ?case
  proof (cases rule: idAt.cases)
    case (task T')
    then show ?thesis using task_id_index by blast
  next
    case (sub T' j')
    then show ?thesis using task_id_not_sub_id by blast
  qed
next
  case (sub i T j)
  from sub show ?case
  proof (cases rule: idAt.cases)
    case (task T')
    then show ?thesis using task_id_not_sub_id [of T' i' T i j] by simp
  next
    case (sub T' j')
    then show ?thesis using sub_id_index by blast
  qed
qed

lemma fst_set_zip: "length xs = length ys \<Longrightarrow> fst ` set (zip xs ys) = set xs"
  by (metis map_fst_zip set_map)

lemma map_of_zip_swap:
  "length xs = length ys \<Longrightarrow> distinct xs \<Longrightarrow> distinct ys \<Longrightarrow>
   (map_of (zip xs ys) x = Some y) = (map_of (zip ys xs) y = Some x)"
proof (induction xs ys rule: list_induct2)
  case Nil
  then show ?case by simp
next
  case (Cons a xs b ys)
  then have ih: "(map_of (zip xs ys) x = Some y) = (map_of (zip ys xs) y = Some x)" by simp
  have xa: "map_of (zip xs ys) a = None" using Cons.hyps Cons.prems(1)
    by (simp add: map_of_eq_None_iff fst_set_zip)
  have yb: "map_of (zip ys xs) b = None" using Cons.hyps Cons.prems(2)
    by (simp add: map_of_eq_None_iff fst_set_zip)
  have xr: "map_of (zip xs ys) x = Some b \<Longrightarrow> False"
    using Cons.prems(2) Cons.hyps by (auto dest!: map_of_SomeD set_zip_rightD)
  have yr: "map_of (zip ys xs) y = Some a \<Longrightarrow> False"
    using Cons.prems(1) Cons.hyps by (auto dest!: map_of_SomeD set_zip_rightD)
  show ?case using ih xa yb xr yr by auto
qed

lemma small_capital_letters:
  "length ''ABCDEFGHIJKLMNOPQRSTUVWXYZ'' = length ''abcdefghijklmnopqrstuvwxyz''"
  "distinct ''ABCDEFGHIJKLMNOPQRSTUVWXYZ''"
  "distinct ''abcdefghijklmnopqrstuvwxyz''"
  by simp_all

lemma keyword_char_not_capital:
  "d \<in> set ''abcdefghijklmnopqrstuvwxyz-'' \<Longrightarrow> d \<notin> set ''ABCDEFGHIJKLMNOPQRSTUVWXYZ''"
  by auto

lemma table_lower_iff:
  assumes "length U = length L" and "distinct U" and "distinct L" and "d \<notin> set U"
  shows "((case map_of (zip U L) c of None \<Rightarrow> c | Some e \<Rightarrow> e) = d) =
         (c = d \<or> c = (case map_of (zip L U) d of None \<Rightarrow> d | Some e \<Rightarrow> e))"
proof -
  have sw: "\<And>x y. (map_of (zip U L) x = Some y) = (map_of (zip L U) y = Some x)"
    by (rule map_of_zip_swap [OF assms(1,2,3)])
  have dom: "\<And>x. (map_of (zip U L) x = None) = (x \<notin> set U)"
    by (simp add: map_of_eq_None_iff fst_set_zip [OF assms(1)])
  show ?thesis
  proof (cases "map_of (zip U L) c")
    case None
    then have cU: "c \<notin> set U" by (simp add: dom)
    from None sw [of c d] have n: "map_of (zip L U) d \<noteq> Some c" by simp
    show ?thesis
    proof (cases "map_of (zip L U) d")
      case None
      with \<open>map_of (zip U L) c = None\<close> show ?thesis by simp
    next
      case (Some e)
      with n have "e \<noteq> c" by simp
      with Some \<open>map_of (zip U L) c = None\<close> show ?thesis by auto
    qed
  next
    case (Some e)
    then have cU: "c \<in> set U" using dom [of c] by auto
    with assms(4) have cd: "c \<noteq> d" by auto
    have "(e = d) = (map_of (zip L U) d = Some c)" using Some sw [of c d] by auto
    with Some cd show ?thesis by (auto split: option.splits)
  qed
qed

lemma toLowerChar_keyword_char:
  assumes "d \<in> set ''abcdefghijklmnopqrstuvwxyz-''"
  shows "(toLowerChar c = d) = (c = d \<or> c = capitalOf d)"
  unfolding toLowerChar_def capitalOf_def
  by (rule table_lower_iff [OF small_capital_letters keyword_char_not_capital [OF assms]])

lemma ciMatch_keyword:
  "set w \<subseteq> set ''abcdefghijklmnopqrstuvwxyz-'' \<Longrightarrow> ciMatch s w = (toLowerCase s = w)"
proof (induction s arbitrary: w)
  case Nil
  then show ?case by (auto simp: ciMatch_def toLowerCase_def)
next
  case (Cons c s)
  show ?case
  proof (cases w)
    case Nil
    then show ?thesis by (simp add: ciMatch_def toLowerCase_def)
  next
    case (Cons d w')
    with Cons.prems have d: "d \<in> set ''abcdefghijklmnopqrstuvwxyz-''"
      and w': "set w' \<subseteq> set ''abcdefghijklmnopqrstuvwxyz-''" by auto
    from Cons.IH [OF w'] have "list_all2 (\<lambda>c d. c = d \<or> c = capitalOf d) s w' = (map toLowerChar s = w')"
      by (simp add: ciMatch_def toLowerCase_def)
    with toLowerChar_keyword_char [OF d, of c] Cons show ?thesis
      by (simp add: ciMatch_def toLowerCase_def)
  qed
qed

lemma ciMatch_words:
  "ciMatch s ''completed'' = (toLowerCase s = ''completed'')"
  "ciMatch s ''in-progress'' = (toLowerCase s = ''in-progress'')"
  "ciMatch s ''high'' = (toLowerCase s = ''high'')"
  "ciMatch s ''low'' = (toLowerCase s = ''low'')"
  by (rule ciMatch_keyword, simp)+

lemma ciMatch_Nil: "ciMatch [] w = (w = [])"
  by (cases w) (simp_all add: ciMatch_def)

lemma lowerOr_status:
  assumes "lowerOr v ''pending'' = Inr s"
  shows "(if s = ''completed'' then Completed else if s = ''in-progress'' then InProgress else Pending)
           = specStatus v"
proof (cases v)
  case None
  with assms show ?thesis by (auto simp: lowerOr_def specStatus_def)
next
  case (Some x)
  show ?thesis
  proof (cases "truthy x")
    case True
    with assms Some obtain str where "x = JStr str" "s = toLowerCase str"
      by (cases x) (auto simp: lowerOr_def)
    with Some show ?thesis by (simp add: specStatus_def ciMatch_words)
  next
    case False
    with assms Some have "s = ''pending''" by (simp add: lowerOr_def)
    moreover from False have "specStatus (Some x) = Pending"
      by (cases x) (auto simp: specStatus_def truthy_def ciMatch_Nil)
    ultimately show ?thesis using Some by simp
  qed
qed

lemma lowerOr_priority:
  assumes "lowerOr v ''medium'' = Inr s"
  shows "(if s = ''high'' then High else if s = ''low'' then Low else Medium) = specPriority v"
proof (cases v)
  case None
  with assms show ?thesis by (auto simp: lowerOr_def specPriority_def)
next
  case (Some x)
  show ?thesis
  proof (cases "truthy x")
    case True
    with assms Some obtain str where "x = JStr str" "s = toLowerCase str"
      by (cases x) (auto simp: lowerOr_def)
    with Some show ?thesis by (simp add: specPriority_def ciMatch_words)
  next
    case False
    with assms Some have "s = ''medium''" by (simp add: lowerOr_def)
    moreover from False have "specPriority (Some x) = Medium"
      by (cases x) (auto simp: specPriority_def truthy_def ciMatch_Nil)
    ultimately show ?thesis using Some by simp
  qed
qed

lemma buildSubtask_Inr:
  assumes "buildSubtask clk index subIndex step k = Inr (st, k1)"
  shows "st_id st = show_int (clk k) @ ''-'' @ show_nat index @ ''-'' @ show_nat subIndex"
    and "completedAtConsistent st"
    and "st_status st = specStatus (getProp step ''status'')"
    and "st_title st = orElse (getProp step ''step'') (JStr (''Step '' @ show_nat (subIndex + 1)))"
proof -
  from assms obtain s where l: "lowerOr (getProp step ''status'') ''pending'' = Inr s"
    and st: "st = \<lparr> st_id = show_int (clk k) @ ''-'' @ show_nat index @ ''-'' @ show_nat subIndex,
                    st_title = orElse (getProp step ''step'') (JStr (''Step '' @ show_nat (subIndex + 1))),
                    st_status = (if s = ''completed'' then Completed
                                 else if s = ''in-progress'' then InProgress
                                 else Pending),
                    st_output = getProp step ''output'',
                    st_description = getProp step ''description'',
                    st_completedAt = (if s = ''completed'' then Some (clk (Suc k)) else None) \<rparr>"
    by (auto simp: buildSubtask_def split: if_splits sum.splits)
  show "st_id st = show_int (clk k) @ ''-'' @ show_nat index @ ''-'' @ show_nat subIndex"
    by (simp add: st)
  show "completedAtConsistent st" by (simp add: st completedAtConsistent_def)
  show "st_status st = specStatus (getProp step ''status'')"
    using lowerOr_status [OF l] by (simp add: st)
  show "st_title st = orElse (getProp step ''step'') (JStr (''Step '' @ show_nat (subIndex + 1)))"
    by (simp add: st)
qed

lemma buildSubtasks_nth:
  assumes "buildSubtasks clk index j0 steps k = Inr (sts, k')"
  shows "length sts = length steps"
    and "\<forall>n<length steps. \<exists>kk kk'.
           buildSubtask clk index (j0 + n) (steps ! n) kk = Inr (sts ! n, kk')"
  using assms
proof (induction steps arbitrary: j0 k sts)
  case Nil
  { case 1 then show ?case by simp }
  { case 2 then show ?case by simp }
next
  case (Cons step steps)
  { case 1
    then obtain st k1 rest where
      h: "buildSubtask clk index j0 step k = Inr (st, k1)"
         "buildSubtasks clk index (Suc j0) steps k1 = Inr (rest, k')" "sts = st # rest"
      by (auto split: sum.splits)
    from Cons.IH(1) [OF h(2)] h(3) show ?case by simp }
  { case 2
    then obtain st k1 rest where
      h: "buildSubtask clk index j0 step k = Inr (st, k1)"
         "buildSubtasks clk index (Suc j0) steps k1 = Inr (rest, k')" "sts = st # rest"
      by (auto split: sum.splits)
    show ?case
    proof (intro allI impI)
      fix n assume n: "n < length (step # steps)"
      show "\<exists>kk kk'. buildSubtask clk index (j0 + n) ((step # steps) ! n) kk = Inr (sts ! n, kk')"
      proof (cases n)
        case 0
        with h show ?thesis by auto
      next
        case (Suc m)
        with n have "m < length steps" by simp
        with Cons.IH(2) [OF h(2)] obtain kk kk' where
          "buildSubtask clk index (Suc j0 + m) (steps ! m) kk = Inr (rest ! m, kk')" by blast
        with Suc h(3) show ?thesis by auto
      qed
    qed }
qed

lemma buildTask_Some:
  assumes "buildTask clk index toolData k = Inr (Some t, k')"
  shows "\<exists>steps k1. getProp toolData ''steps'' = Some (JArr steps) \<and>
           buildSubtasks clk index 0 steps k = Inr (t_subtasks t, k1) \<and>
           t_id t = show_int (clk k1) @ ''-'' @ show_nat index"
    and "t_priority t = specPriority (getProp toolData ''priority'')"
    and "t_status t = specStatus (getProp toolData ''status'')"
    and "t_title t = orElse (getProp toolData ''title'') (JStr ''Untitled Task'')"
    and "validRecord toolData"
proof -
  from assms have v: "truthy toolData" "truthy_opt (getProp toolData ''title'')"
    by (auto simp: buildTask_def split: if_splits)
  from assms v obtain steps where s: "getProp toolData ''steps'' = Some (JArr steps)"
    by (auto simp: buildTask_def split: option.splits json.splits)
  from assms v s obtain subtasks k1 where b: "buildSubtasks clk index 0 steps k = Inr (subtasks, k1)"
    by (auto simp: buildTask_def split: sum.splits)
  from assms v s b obtain priority where p: "lowerOr (getProp toolData ''priority'') ''medium'' = Inr priority"
    by (auto simp: buildTask_def split: sum.splits)
  from assms v s b p obtain status where st: "lowerOr (getProp toolData ''status'') ''pending'' = Inr status"
    by (auto simp: buildTask_def split: sum.splits)
  from assms v s b p st have t:
    "t = \<lparr> t_id = show_int (clk k1) @ ''-'' @ show_nat index,
           t_title = orElse (getProp toolData ''title'') (JStr ''Untitled Task''),
           t_description = orElse (getProp toolData ''description'') (JStr ''No description provided.''),
           t_status = (if status = ''completed'' then Completed
                       else if status = ''in-progress'' then InProgress
                       else Pending),
           t_priority = (if priority = ''high'' then High
                         else if priority = ''low'' then Low
                         else Medium),
           t_createdAt = clk (Suc k1),
           t_subtasks = subtasks \<rparr>"
    by (simp add: buildTask_def)
  show "\<exists>steps k1. getProp toolData ''steps'' = Some (JArr steps) \<and>
           buildSubtasks clk index 0 steps k = Inr (t_subtasks t, k1) \<and>
           t_id t = show_int (clk k1) @ ''-'' @ show_nat index"
    using s b by (simp add: t)
  show "t_priority t = specPriority (getProp toolData ''priority'')"
    using lowerOr_priority [OF p] by (simp add: t)
  show "t_status t = specStatus (getProp toolData ''status'')"
    using lowerOr_status [OF st] by (simp add: t)
  show "t_title t = orElse (getProp toolData ''title'') (JStr ''Untitled Task'')"
    by (simp add: t)
  show "validRecord toolData" using v s by (simp add: validRecord_def)
qed

lemma buildTask_invalid:
  "\<not> validRecord toolData \<Longrightarrow> buildTask clk index toolData k = Inr (None, k)"
  by (auto simp: buildTask_def validRecord_def split: option.splits json.splits)

lemma lowerOr_ok: "stringOrFalsy v \<Longrightarrow> \<exists>s. lowerOr v d = Inr s"
  by (auto simp: stringOrFalsy_def lowerOr_def split: option.splits json.splits)

lemma buildSubtask_ok:
  "stepBuilds step \<Longrightarrow> \<exists>st k1. buildSubtask clk index subIndex step k = Inr (st, k1)"
proof -
  assume a: "stepBuilds step"
  then obtain s where "lowerOr (getProp step ''status'') ''pending'' = Inr s"
    using lowerOr_ok [of "getProp step ''status''" "''pending''"] by (auto simp: stepBuilds_def)
  with a show ?thesis by (simp add: buildSubtask_def stepBuilds_def)
qed

lemma buildSubtasks_ok:
  "list_all stepBuilds steps \<Longrightarrow> \<exists>sts k'. buildSubtasks clk index j0 steps k = Inr (sts, k')"
proof (induction steps arbitrary: j0 k)
  case Nil
  then show ?case by simp
next
  case (Cons step steps)
  then have "stepBuilds step" and r: "list_all stepBuilds steps" by simp_all
  then obtain st k1 where b: "buildSubtask clk index j0 step k = Inr (st, k1)"
    using buildSubtask_ok by blast
  from Cons.IH [OF r] obtain sts k' where "buildSubtasks clk index (Suc j0) steps k1 = Inr (sts, k')"
    by blast
  with b show ?case by simp
qed

lemma buildTask_valid:
  assumes "validRecord r" and "buildsWithoutError r"
  shows "\<exists>t k'. buildTask clk index r k = Inr (Some t, k') \<and> t_title t = titleOf r"
proof -
  from assms(1) obtain steps where s: "getProp r ''steps'' = Some (JArr steps)"
    and v: "truthy r" "truthy_opt (getProp r ''title'')"
    by (auto simp: validRecord_def split: option.splits json.splits)
  from assms(2) s have "list_all stepBuilds steps" by (simp add: buildsWithoutError_def stepsOf_def)
  then obtain sts k1 where b: "buildSubtasks clk index 0 steps k = Inr (sts, k1)"
    using buildSubtasks_ok by blast
  from assms(2) obtain p where p: "lowerOr (getProp r ''priority'') ''medium'' = Inr p"
    using lowerOr_ok [of "getProp r ''priority''" "''medium''"] by (auto simp: buildsWithoutError_def)
  from assms(2) obtain st where st: "lowerOr (getProp r ''status'') ''pending'' = Inr st"
    using lowerOr_ok [of "getProp r ''status''" "''pending''"] by (auto simp: buildsWithoutError_def)
  from v(2) have "orElse (getProp r ''title'') (JStr ''Untitled Task'') = titleOf r"
    by (auto simp: orElse_def titleOf_def truthy_opt_def split: option.splits)
  with v s b p st show ?thesis by (simp add: buildTask_def)
qed

lemma buildTasks_ok:
  assumes "\<forall>r\<in>set updates. validRecord r \<longrightarrow> buildsWithoutError r"
  shows "\<exists>mapped k'. buildTasks clk i0 updates k = Inr (mapped, k') \<and>
           map t_title (dropNulls mapped) = map titleOf (filter validRecord updates)"
  using assms
proof (induction updates arbitrary: i0 k)
  case Nil
  then show ?case by simp
next
  case (Cons r updates)
  then have rest: "\<forall>r\<in>set updates. validRecord r \<longrightarrow> buildsWithoutError r" by simp
  show ?case
  proof (cases "validRecord r")
    case True
    with Cons.prems have "buildsWithoutError r" by simp
    from buildTask_valid [OF True this] obtain t k1 where
      b: "buildTask clk i0 r k = Inr (Some t, k1)" "t_title t = titleOf r" by blast
    from Cons.IH [OF rest] obtain mapped k' where
      "buildTasks clk (Suc i0) updates k1 = Inr (mapped, k')"
      "map t_title (dropNulls mapped) = map titleOf (filter validRecord updates)" by blast
    with b True show ?thesis by simp
  next
    case False
    from Cons.IH [OF rest] obtain mapped k' where
      "buildTasks clk (Suc i0) updates k = Inr (mapped, k')"
      "map t_title (dropNulls mapped) = map titleOf (filter validRecord updates)" by blast
    with False show ?thesis by (simp add: buildTask_invalid)
  qed
qed

lemma buildSubtasks_consistent:
  assumes "buildSubtasks clk index j0 steps k = Inr (sts, k')"
  shows "list_all completedAtConsistent sts"
proof -
  have "\<forall>n<length sts. completedAtConsistent (sts ! n)"
    using buildSubtasks_nth [OF assms] buildSubtask_Inr(2) by metis
  then show ?thesis by (simp add: list_all_length)
qed

lemma buildSubtasks_ids:
  assumes "buildSubtasks clk index j0 steps k = Inr (sts, k')"
  shows "distinct (map st_id sts)" and "\<forall>s\<in>set (map st_id sts). idAt index s"
    and "\<forall>s\<in>set (map st_id sts). \<forall>T. s \<noteq> show_int T @ ''-'' @ show_nat index"
proof -
  have each: "\<forall>n<length sts. \<exists>T. st_id (sts ! n) =
      show_int T @ ''-'' @ show_nat index @ ''-'' @ show_nat (j0 + n)"
    using buildSubtasks_nth [OF assms] buildSubtask_Inr(1) by metis
  show "distinct (map st_id sts)"
  proof (simp only: distinct_conv_nth, intro allI impI)
    fix n m assume "n < length (map st_id sts)" "m < length (map st_id sts)" "n \<noteq> m"
    then have n: "n < length sts" and m: "m < length sts" and ne: "j0 + n \<noteq> j0 + m" by simp_all
    from each n obtain T where a: "st_id (sts ! n) =
      show_int T @ ''-'' @ show_nat index @ ''-'' @ show_nat (j0 + n)" by blast
    from each m obtain T' where b: "st_id (sts ! m) =
      show_int T' @ ''-'' @ show_nat index @ ''-'' @ show_nat (j0 + m)" by blast
    from a b ne sub_id_index [of T index "j0 + n" T' index "j0 + m"]
    have "st_id (sts ! n) \<noteq> st_id (sts ! m)" by auto
    with n m show "map st_id sts ! n \<noteq> map st_id sts ! m" by simp
  qed
  show "\<forall>s\<in>set (map st_id sts). idAt index s"
  proof
    fix s assume "s \<in> set (map st_id sts)"
    then obtain n where "n < length sts" "s = st_id (sts ! n)"
      by (auto simp: in_set_conv_nth)
    with each obtain T where "s = show_int T @ ''-'' @ show_nat index @ ''-'' @ show_nat (j0 + n)"
      by blast
    then show "idAt index s" by (simp only: idAt.sub)
  qed
  show "\<forall>s\<in>set (map st_id sts). \<forall>T. s \<noteq> show_int T @ ''-'' @ show_nat index"
  proof (intro ballI allI)
    fix s T assume "s \<in> set (map st_id sts)"
    then obtain n where "n < length sts" "s = st_id (sts ! n)"
      by (auto simp: in_set_conv_nth)
    with each obtain T' where "s = show_int T' @ ''-'' @ show_nat index @ ''-'' @ show_nat (j0 + n)"
      by blast
    then show "s \<noteq> show_int T @ ''-'' @ show_nat index"
      using task_id_not_sub_id [of T index T' index "j0 + n"] by simp
  qed
qed

lemma buildTask_ids:
  assumes "buildTask clk index toolData k = Inr (Some t, k')"
  shows "distinct (t_id t # map st_id (t_subtasks t))"
    and "\<forall>s\<in>set (t_id t # map st_id (t_subtasks t)). idAt index s"
    and "list_all completedAtConsistent (t_subtasks t)"
proof -
  from buildTask_Some(1) [OF assms] obtain steps k1 where
    b: "buildSubtasks clk index 0 steps k = Inr (t_subtasks t, k1)"
    and i: "t_id t = show_int (clk k1) @ ''-'' @ show_nat index" by blast
  from buildSubtasks_ids(3) [OF b] i have "t_id t \<notin> set (map st_id (t_subtasks t))" by blast
  with buildSubtasks_ids(1) [OF b] show "distinct (t_id t # map st_id (t_subtasks t))" by simp
  have "idAt index (t_id t)" by (simp only: i idAt.task)
  with buildSubtasks_ids(2) [OF b] show "\<forall>s\<in>set (t_id t # map st_id (t_subtasks t)). idAt index s"
    by simp
  show "list_all completedAtConsistent (t_subtasks t)" by (rule buildSubtasks_consistent [OF b])
qed

lemma buildTasks_ids:
  assumes "buildTasks clk i0 updates k = Inr (mapped, k')"
  shows "distinct (all_ids (dropNulls mapped)) \<and>
         (\<forall>s\<in>set (all_ids (dropNulls mapped)). \<exists>i\<ge>i0. idAt i s) \<and>
         subtasksConsistent (dropNulls mapped)"
  using assms
proof (induction updates arbitrary: i0 k mapped)
  case Nil
  then show ?case by (simp add: all_ids_def subtasksConsistent_def)
next
  case (Cons r updates)
  then obtain t k1 ts where h: "buildTask clk i0 r k = Inr (t, k1)"
    "buildTasks clk (Suc i0) updates k1 = Inr (ts, k')" "mapped = t # ts"
    by (auto split: sum.splits)
  from Cons.IH [OF h(2)] have ih: "distinct (all_ids (dropNulls ts))"
    "\<forall>s\<in>set (all_ids (dropNulls ts)). \<exists>i\<ge>Suc i0. idAt i s"
    "subtasksConsistent (dropNulls ts)" by simp_all
  show ?case
  proof (cases t)
    case None
    with h(3) ih show ?thesis by (auto intro: Suc_leD)
  next
    case (Some task)
    let ?ids = "t_id task # map st_id (t_subtasks task)"
    from h(1) Some have b: "buildTask clk i0 r k = Inr (Some task, k1)" by simp
    have e: "all_ids (dropNulls mapped) = ?ids @ all_ids (dropNulls ts)"
      using h(3) Some by (simp add: all_ids_def)
    have disj: "set ?ids \<inter> set (all_ids (dropNulls ts)) = {}"
    proof (rule ccontr)
      assume "set ?ids \<inter> set (all_ids (dropNulls ts)) \<noteq> {}"
      then obtain s where s1: "s \<in> set ?ids" and s2: "s \<in> set (all_ids (dropNulls ts))" by blast
      from buildTask_ids(2) [OF b] s1 have "idAt i0 s" by blast
      moreover from ih(2) s2 obtain i where "i \<ge> Suc i0" "idAt i s" by blast
      ultimately show False using idAt_unique by fastforce
    qed
    have d: "distinct (all_ids (dropNulls mapped))"
      unfolding e using buildTask_ids(1) [OF b] ih(1) disj by (simp only: distinct_append)
    have a: "\<forall>s\<in>set (all_ids (dropNulls mapped)). \<exists>i\<ge>i0. idAt i s"
    proof
      fix s assume "s \<in> set (all_ids (dropNulls mapped))"
      then consider "s \<in> set ?ids" | "s \<in> set (all_ids (dropNulls ts))" unfolding e by auto
      then show "\<exists>i\<ge>i0. idAt i s"
      proof cases
        case 1
        with buildTask_ids(2) [OF b] show ?thesis by blast
      next
        case 2
        with ih(2) obtain i where "i \<ge> Suc i0" "idAt i s" by blast
        then show ?thesis by (auto intro: Suc_leD)
      qed
    qed
    have c: "subtasksConsistent (dropNulls mapped)"
      using h(3) Some ih(3) buildTask_ids(3) [OF b] by (simp add: subtasksConsistent_def)
    from d a c show ?thesis by blast
  qed
qed

lemma truthy_hd_updatesOf: "truthy (hd (updatesOf data)) \<Longrightarrow> truthy data"
  by (cases data) (simp_all add: updatesOf_def truthy_def)

text \<open>
  Claim C9. The identifiers generated by one pass of \<open>fetchUpdates\<close> over fetched data are
  pairwise distinct: the list of every task id followed by its subtask ids has no repetition,
  whatever the clock reads at each \<open>Date.now()\<close>, also when it reads the same instant every
  time.
\<close>

theorem generated_ids_distinct:
  assumes "truthy data" and "fetchUpdates clk data tasks k = Inr (newTasks, k')"
  shows "distinct (all_ids newTasks)"
proof (cases "length (updatesOf data) > 0 \<and> truthy (updatesOf data ! 0)")
  case True
  with assms obtain mapped where "buildTasks clk 0 (updatesOf data) k = Inr (mapped, k')"
    and "newTasks = dropNulls mapped"
    by (auto simp: fetchUpdates_def split: sum.splits)
  with buildTasks_ids show ?thesis by blast
next
  case False
  with assms have "newTasks = []" by (auto simp: fetchUpdates_def)
  then show ?thesis by (simp add: all_ids_def)
qed

lemma error_is_TypeError: "(e::error) = TypeError"
  by (cases e) simp

lemma lowerOr_Inr_stringOrFalsy: "lowerOr v d = Inr s \<Longrightarrow> stringOrFalsy v"
  by (auto simp: lowerOr_def stringOrFalsy_def split: option.splits json.splits if_splits)

lemma buildSubtask_Inr_builds:
  "buildSubtask clk index subIndex step k = Inr x \<Longrightarrow> stepBuilds step"
  by (auto simp: buildSubtask_def stepBuilds_def split: if_splits sum.splits
      dest: lowerOr_Inr_stringOrFalsy)

lemma buildSubtasks_Inr_builds:
  "buildSubtasks clk index j0 steps k = Inr x \<Longrightarrow> list_all stepBuilds steps"
proof (induction steps arbitrary: j0 k x)
  case Nil
  then show ?case by simp
next
  case (Cons step steps)
  then obtain st k1 rest where
    "buildSubtask clk index j0 step k = Inr (st, k1)"
    "buildSubtasks clk index (Suc j0) steps k1 = Inr rest"
    by (auto split: sum.splits)
  with Cons.IH buildSubtask_Inr_builds show ?case by auto
qed

lemma buildTask_Inr_builds:
  assumes "buildTask clk index r k = Inr x" and "validRecord r"
  shows "buildsWithoutError r"
proof -
  from assms(2) obtain steps where s: "getProp r ''steps'' = Some (JArr steps)"
    and v: "truthy r" "truthy_opt (getProp r ''title'')"
    by (auto simp: validRecord_def split: option.splits json.splits)
  from assms(1) v s obtain sts where b: "buildSubtasks clk index 0 steps k = Inr sts"
    by (auto simp: buildTask_def split: sum.splits)
  from assms(1) v s b obtain p where p: "lowerOr (getProp r ''priority'') ''medium'' = Inr p"
    by (auto simp: buildTask_def split: sum.splits prod.splits)
  from assms(1) v s b p obtain st where st: "lowerOr (getProp r ''status'') ''pending'' = Inr st"
    by (auto simp: buildTask_def split: sum.splits prod.splits)
  from buildSubtasks_Inr_builds [OF b] lowerOr_Inr_stringOrFalsy [OF p]
    lowerOr_Inr_stringOrFalsy [OF st] s
  show ?thesis by (simp add: buildsWithoutError_def stepsOf_def)
qed

lemma buildTasks_Inr_builds:
  "buildTasks clk i0 updates k = Inr x \<Longrightarrow> \<forall>r\<in>set updates. validRecord r \<longrightarrow> buildsWithoutError r"
proof (induction updates arbitrary: i0 k x)
  case Nil
  then show ?case by simp
next
  case (Cons r updates)
  then obtain t k1 rest where
    "buildTask clk i0 r k = Inr (t, k1)"
    "buildTasks clk (Suc i0) updates k1 = Inr rest"
    by (auto split: sum.splits)
  with Cons.IH buildTask_Inr_builds show ?case by auto
qed

lemma fetchUpdates_throws:
  assumes "updatesOf data \<noteq> []" and "truthy (hd (updatesOf data))"
    and "\<not> (\<forall>r\<in>set (updatesOf data). validRecord r \<longrightarrow> buildsWithoutError r)"
  shows "fetchUpdates clk data tasks k = Inl TypeError"
proof -
  from assms(2) have d: "truthy data" by (rule truthy_hd_updatesOf)
  from assms(1,2) have g: "length (updatesOf data) > 0 \<and> truthy (updatesOf data ! 0)"
    by (simp add: hd_conv_nth)
  have "\<exists>e. buildTasks clk 0 (updatesOf data) k = Inl e"
  proof (cases "buildTasks clk 0 (updatesOf data) k")
    case (Inl e)
    then show ?thesis by blast
  next
    case (Inr x)
    from buildTasks_Inr_builds [OF this] assms(3) show ?thesis by blast
  qed
  then obtain e where "buildTasks clk 0 (updatesOf data) k = Inl e" by blast
  with d g show ?thesis by (simp add: fetchUpdates_def error_is_TypeError [of e])
qed

lemma fetchUpdates_first_falsy:
  assumes "truthy data" and "updatesOf data = [] \<or> \<not> truthy (hd (updatesOf data))"
  shows "fetchUpdates clk data tasks k = Inr ([], k)"
  using assms by (cases "updatesOf data") (auto simp: fetchUpdates_def)

text \<open>
  Claim C8, amended. When the first element of the fetched sequence is truthy and every
  element that the builder keeps builds without a TypeError (each step is not \<open>null\<close>, and
  each status and priority is a string or falsy), the fetch returns, and its result holds
  exactly one task per kept record, in source order. An element that is falsy, whose title is
  missing or falsy, or whose steps are not an array is skipped: its callback returns
  \<open>null\<close>, raises nothing, and leaves the clock untouched. When the fetched data is truthy
  and the sequence is empty or its first element is falsy, the collection becomes empty.
  When the first element is truthy and some kept record does not build, the fetch throws a
  TypeError and the collection is not replaced.
\<close>

theorem invalid_records_dropped:
  "(updatesOf data \<noteq> [] \<and> truthy (hd (updatesOf data)) \<and>
    (\<forall>r\<in>set (updatesOf data). validRecord r \<longrightarrow> buildsWithoutError r) \<longrightarrow>
      (\<exists>newTasks k'. fetchUpdates clk data tasks k = Inr (newTasks, k') \<and>
         map t_title newTasks = map titleOf (filter validRecord (updatesOf data)))) \<and>
   (\<forall>r i n. \<not> validRecord r \<longrightarrow> buildTask clk i r n = Inr (None, n)) \<and>
   (truthy data \<and> (updatesOf data = [] \<or> \<not> truthy (hd (updatesOf data))) \<longrightarrow>
      fetchUpdates clk data tasks k = Inr ([], k)) \<and>
   (updatesOf data \<noteq> [] \<and> truthy (hd (updatesOf data)) \<and>
    \<not> (\<forall>r\<in>set (updatesOf data). validRecord r \<longrightarrow> buildsWithoutError r) \<longrightarrow>
      fetchUpdates clk data tasks k = Inl TypeError)"
proof (intro conjI impI)
  assume a: "updatesOf data \<noteq> [] \<and> truthy (hd (updatesOf data)) \<and>
    (\<forall>r\<in>set (updatesOf data). validRecord r \<longrightarrow> buildsWithoutError r)"
  then have d: "truthy data" by (simp add: truthy_hd_updatesOf)
  from a have ne: "updatesOf data \<noteq> []" and tr: "truthy (hd (updatesOf data))" by simp_all
  from ne tr have g: "length (updatesOf data) > 0 \<and> truthy (updatesOf data ! 0)"
    by (simp add: hd_conv_nth)
  from a have "\<forall>r\<in>set (updatesOf data). validRecord r \<longrightarrow> buildsWithoutError r" by simp
  from buildTasks_ok [OF this] obtain mapped k' where
    "buildTasks clk 0 (updatesOf data) k = Inr (mapped, k')"
    "map t_title (dropNulls mapped) = map titleOf (filter validRecord (updatesOf data))" by blast
  with d g have "fetchUpdates clk data tasks k = Inr (dropNulls mapped, k') \<and>
     map t_title (dropNulls mapped) = map titleOf (filter validRecord (updatesOf data))"
    by (simp add: fetchUpdates_def)
  then show "\<exists>newTasks k'. fetchUpdates clk data tasks k = Inr (newTasks, k') \<and>
         map t_title newTasks = map titleOf (filter validRecord (updatesOf data))" by blast
next
  show "\<forall>r i n. \<not> validRecord r \<longrightarrow> buildTask clk i r n = Inr (None, n)"
    using buildTask_invalid by blast
next
  assume "truthy data \<and> (updatesOf data = [] \<or> \<not> truthy (hd (updatesOf data)))"
  then show "fetchUpdates clk data tasks k = Inr ([], k)"
    using fetchUpdates_first_falsy by blast
next
  assume "updatesOf data \<noteq> [] \<and> truthy (hd (updatesOf data)) \<and>
    \<not> (\<forall>r\<in>set (updatesOf data). validRecord r \<longrightarrow> buildsWithoutError r)"
  then show "fetchUpdates clk data tasks k = Inl TypeError"
    using fetchUpdates_throws by blast
qed

lemma updated_subtasks_consistent:
  assumes "list_all completedAtConsistent subs"
  shows "list_all completedAtConsistent (fst (map_clock (updateSubtask clk subtaskId newStatus) subs k))"
proof -
  have "\<forall>j<length subs.
     completedAtConsistent (fst (map_clock (updateSubtask clk subtaskId newStatus) subs k) ! j)"
  proof (intro allI impI)
    fix j assume j: "j < length subs"
    with assms have c: "completedAtConsistent (subs ! j)" by (simp add: list_all_length)
    from updated_subtask_nth [OF j] obtain k' where
      "fst (map_clock (updateSubtask clk subtaskId newStatus) subs k) ! j =
         (if st_id (subs ! j) = subtaskId
          then (subs ! j)\<lparr>st_status := newStatus,
                  st_completedAt := (if newStatus = Completed then Some (clk k') else None)\<rparr>
          else subs ! j)" by blast
    with c show "completedAtConsistent (fst (map_clock (updateSubtask clk subtaskId newStatus) subs k) ! j)"
      by (simp add: completedAtConsistent_def)
  qed
  then show ?thesis by (simp add: list_all_length length_map_clock)
qed

lemma updateSubtaskStatus_consistent:
  assumes "subtasksConsistent tasks"
  shows "subtasksConsistent (fst (updateSubtaskStatus clk taskId subtaskId newStatus tasks k))"
proof -
  have "\<forall>i<length tasks. list_all completedAtConsistent
          (t_subtasks (fst (updateSubtaskStatus clk taskId subtaskId newStatus tasks k) ! i))"
  proof (intro allI impI)
    fix i assume i: "i < length tasks"
    with assms have c: "list_all completedAtConsistent (t_subtasks (tasks ! i))"
      by (simp add: subtasksConsistent_def list_all_length)
    from updateSubtaskStatus_nth [OF i] obtain k' where
      "fst (updateSubtaskStatus clk taskId subtaskId newStatus tasks k) ! i =
         fst (updateSubtaskOfTask clk taskId subtaskId newStatus (tasks ! i) k')" by blast
    with c updated_subtasks_consistent [OF c]
    show "list_all completedAtConsistent
          (t_subtasks (fst (updateSubtaskStatus clk taskId subtaskId newStatus tasks k) ! i))"
      by (simp add: updateSubtaskOfTask_eq)
  qed
  then show ?thesis
    by (simp add: subtasksConsistent_def list_all_length length_updateSubtaskStatus)
qed

lemma updateTaskStatus_consistent:
  "subtasksConsistent tasks \<Longrightarrow> subtasksConsistent (updateTaskStatus taskId newStatus tasks)"
  by (induction tasks) (simp_all add: subtasksConsistent_def updateTaskStatus_def)

lemma updateTaskStatus_subtasks:
  "map t_subtasks (updateTaskStatus taskId newStatus tasks) = map t_subtasks tasks"
  by (simp add: updateTaskStatus_def comp_def if_distrib cong: if_cong)

lemma fetchUpdates_consistent:
  assumes "truthy data" and "fetchUpdates clk data tasks k = Inr (newTasks, k')"
  shows "subtasksConsistent newTasks"
proof (cases "length (updatesOf data) > 0 \<and> truthy (updatesOf data ! 0)")
  case True
  with assms obtain mapped where "buildTasks clk 0 (updatesOf data) k = Inr (mapped, k')"
    and "newTasks = dropNulls mapped"
    by (auto simp: fetchUpdates_def split: sum.splits)
  with buildTasks_ids show ?thesis by blast
next
  case False
  with assms have "newTasks = []" by (auto simp: fetchUpdates_def)
  then show ?thesis by (simp add: subtasksConsistent_def)
qed

text \<open>
  Claim C3 says that a directly toggled task has a \<open>completedAt\<close> exactly when it is
  completed. A task has no such property: after \<open>updateTaskStatus\<close> sets the first example
  task to completed, reading its \<open>completedAt\<close> gives \<open>undefined\<close>.
\<close>

theorem task_completedAt_counterexample:
  "t_status (updateTaskStatus ''t1'' Completed exampleTasks ! 0) = Completed \<and>
   t_completedAt (updateTaskStatus ''t1'' Completed exampleTasks ! 0) = None"
  by (simp add: example_defs t_completedAt_def)

lemmas build_defs = fetchUpdates_def updatesOf_def buildTask_def buildSubtask_def lowerOr_def
  getProp_def truthy_def truthy_opt_def orElse_def toLowerCase_def toLowerChar_def
  show_int_def show_nat.simps digit_def exampleRecord_def untitledRecord_def nullStepRecord_def
  frozenClock_def exampleClock_def all_ids_def validRecord_def exampleData_def

theorem generated_ids_distinct_witness:
  "truthy exampleData \<and>
   (case fetchUpdates frozenClock exampleData [] 0 of
      Inl e \<Rightarrow> False
    | Inr (ts, k') \<Rightarrow>
        all_ids ts = [''1730000000000-1'', ''1730000000000-1-0'', ''1730000000000-1-1'',
                      ''1730000000000-3'', ''1730000000000-3-0'', ''1730000000000-3-1''] \<and>
        distinct (all_ids ts))"
proof -
  have t: "truthy exampleData" by (simp add: exampleData_def truthy_def)
  have "case fetchUpdates frozenClock exampleData [] 0 of
      Inl e \<Rightarrow> False
    | Inr (ts, k') \<Rightarrow>
        all_ids ts = [''1730000000000-1'', ''1730000000000-1-0'', ''1730000000000-1-1'',
                      ''1730000000000-3'', ''1730000000000-3-0'', ''1730000000000-3-1'']"
    by (simp add: build_defs)
  then obtain ts k' where r: "fetchUpdates frozenClock exampleData [] 0 = Inr (ts, k')"
    and i: "all_ids ts = [''1730000000000-1'', ''1730000000000-1-0'', ''1730000000000-1-1'',
                      ''1730000000000-3'', ''1730000000000-3-0'', ''1730000000000-3-1'']"
    by (auto split: sum.splits)
  from generated_ids_distinct [OF t r] have "distinct (all_ids ts)" .
  with t r i show ?thesis by simp
qed

text \<open>
  Claim C8 says that, for every sequence of records, the result of one fetch is one task per
  valid record and that no exception is raised. When the first element is \<open>null\<close> the
  result is the empty collection although a valid record follows; and a record with a title
  and an array of steps that holds \<open>null\<close> makes the fetch throw a TypeError.
\<close>

theorem invalid_records_counterexample:
  "validRecord exampleRecord \<and>
   fetchUpdates exampleClock (JArr [JNull, exampleRecord]) exampleTasks 0 = Inr ([], 0) \<and>
   validRecord nullStepRecord \<and>
   fetchUpdates exampleClock (JArr [nullStepRecord]) exampleTasks 0 = Inl TypeError"
  by (simp add: build_defs)

theorem invalid_records_dropped_witness:
  "updatesOf (JArr [exampleRecord, untitledRecord, JNull, exampleRecord]) \<noteq> [] \<and>
   truthy (hd (updatesOf (JArr [exampleRecord, untitledRecord, JNull, exampleRecord]))) \<and>
   list_all (\<lambda>r. \<not> validRecord r \<or> buildsWithoutError r)
     (updatesOf (JArr [exampleRecord, untitledRecord, JNull, exampleRecord])) \<and>
   (case fetchUpdates exampleClock (JArr [exampleRecord, untitledRecord, JNull, exampleRecord])
           exampleTasks 0 of
      Inl e \<Rightarrow> False
    | Inr (ts, k') \<Rightarrow> map t_title ts = [JStr ''Patch server'', JStr ''Patch server''])"
proof -
  let ?d = "JArr [exampleRecord, untitledRecord, JNull, exampleRecord]"
  have h1: "updatesOf ?d \<noteq> []" by (simp add: updatesOf_def)
  have h2: "truthy (hd (updatesOf ?d))" by (simp add: updatesOf_def truthy_def exampleRecord_def)
  have h3': "list_all (\<lambda>r. \<not> validRecord r \<or> buildsWithoutError r) (updatesOf ?d)"
    by (simp add: build_defs buildsWithoutError_def stepsOf_def stepBuilds_def stringOrFalsy_def)
  then have h3: "\<forall>r\<in>set (updatesOf ?d). validRecord r \<longrightarrow> buildsWithoutError r"
    by (auto simp: list_all_iff)
  have v: "filter validRecord (updatesOf ?d) = [exampleRecord, exampleRecord]"
    by (simp add: build_defs)
  have ti: "titleOf exampleRecord = JStr ''Patch server''"
    by (simp add: titleOf_def getProp_def exampleRecord_def)
  from invalid_records_dropped [of ?d exampleClock exampleTasks 0] h1 h2 h3
  have "\<exists>newTasks k'. fetchUpdates exampleClock ?d exampleTasks 0 = Inr (newTasks, k') \<and>
         map t_title newTasks = map titleOf (filter validRecord (updatesOf ?d))" by blast
  with v ti obtain ts k' where "fetchUpdates exampleClock ?d exampleTasks 0 = Inr (ts, k')"
    "map t_title ts = [JStr ''Patch server'', JStr ''Patch server'']" by auto
  with h1 h2 h3' show ?thesis by simp
qed

section \<open>The time of completion and the normalised fields, verified\<close>

lemma stampedWithin_widen:
  "stampedWithin clk a b s \<Longrightarrow> k \<le> a \<Longrightarrow> b \<le> k' \<Longrightarrow> stampedWithin clk k k' s"
  by (auto simp: stampedWithin_def)

lemma stampedWithin_consistent: "stampedWithin clk k k' s \<Longrightarrow> completedAtConsistent s"
  by (auto simp: stampedWithin_def completedAtConsistent_def split: if_splits)

lemma buildSubtask_stamped:
  assumes "buildSubtask clk index subIndex step k = Inr (st, k1)"
  shows "k \<le> k1" and "stampedWithin clk k k1 st"
proof -
  from assms have n: "step \<noteq> JNull" by (auto simp: buildSubtask_def split: if_splits)
  with assms obtain s where l: "lowerOr (getProp step ''status'') ''pending'' = Inr s"
    by (auto simp: buildSubtask_def split: sum.splits)
  from assms n l have
    st: "st_status st = (if s = ''completed'' then Completed
                         else if s = ''in-progress'' then InProgress else Pending)"
        "st_completedAt st = (if s = ''completed'' then Some (clk (Suc k)) else None)"
        "k1 = (if s = ''completed'' then Suc (Suc k) else Suc k)"
    by (auto simp: buildSubtask_def)
  show "k \<le> k1" by (simp add: st)
  show "stampedWithin clk k k1 st"
  proof (cases "s = ''completed''")
    case True
    have "Suc k \<in> set [k..<Suc (Suc k)]" by simp
    then have "Some (clk (Suc k)) \<in> set (map (\<lambda>n. Some (clk n)) [k..<Suc (Suc k)])"
      by (simp only: set_map) blast
    with True show ?thesis by (simp only: stampedWithin_def st) simp
  next
    case False
    then show ?thesis by (simp add: stampedWithin_def st)
  qed
qed

lemma buildSubtasks_stamped:
  assumes "buildSubtasks clk index j0 steps k = Inr (sts, k')"
  shows "k \<le> k' \<and> list_all (stampedWithin clk k k') sts"
  using assms
proof (induction steps arbitrary: j0 k sts)
  case Nil
  then show ?case by simp
next
  case (Cons step steps)
  then obtain st k1 rest where
    h: "buildSubtask clk index j0 step k = Inr (st, k1)"
       "buildSubtasks clk index (Suc j0) steps k1 = Inr (rest, k')" "sts = st # rest"
    by (auto split: sum.splits)
  from buildSubtask_stamped [OF h(1)] have a: "k \<le> k1" "stampedWithin clk k k1 st" by simp_all
  from Cons.IH [OF h(2)] have b: "k1 \<le> k'" "list_all (stampedWithin clk k1 k') rest" by simp_all
  from a b have "stampedWithin clk k k' st" by (auto intro: stampedWithin_widen)
  moreover from a b have "list_all (stampedWithin clk k k') rest"
    by (auto simp: list_all_iff intro: stampedWithin_widen)
  ultimately show ?case using a b h(3) by simp
qed

lemma buildTask_stamped:
  assumes "buildTask clk index r k = Inr (x, k')"
  shows "k \<le> k' \<and> (case x of None \<Rightarrow> True
                      | Some t \<Rightarrow> list_all (stampedWithin clk k k') (t_subtasks t))"
proof (cases x)
  case None
  with assms have "k' = k"
    by (auto simp: buildTask_def split: if_splits option.splits json.splits sum.splits)
  with None show ?thesis by simp
next
  case (Some t)
  with assms have b: "buildTask clk index r k = Inr (Some t, k')" by simp
  from buildTask_Some(1) [OF b] obtain steps k1 where
    g: "getProp r ''steps'' = Some (JArr steps)"
    and s: "buildSubtasks clk index 0 steps k = Inr (t_subtasks t, k1)" by blast
  from b g s have k': "k' = Suc (Suc k1)"
    by (auto simp: buildTask_def split: if_splits sum.splits)
  from buildSubtasks_stamped [OF s] have "k \<le> k1" "list_all (stampedWithin clk k k1) (t_subtasks t)"
    by simp_all
  with k' have "k \<le> k'" "list_all (stampedWithin clk k k') (t_subtasks t)"
    by (auto simp: list_all_iff intro: stampedWithin_widen)
  with Some show ?thesis by simp
qed

lemma buildTasks_stamped:
  assumes "buildTasks clk i0 updates k = Inr (mapped, k')"
  shows "k \<le> k' \<and> list_all (\<lambda>t. list_all (stampedWithin clk k k') (t_subtasks t)) (dropNulls mapped)"
  using assms
proof (induction updates arbitrary: i0 k mapped)
  case Nil
  then show ?case by simp
next
  case (Cons r updates)
  then obtain x k1 rest where
    h: "buildTask clk i0 r k = Inr (x, k1)"
       "buildTasks clk (Suc i0) updates k1 = Inr (rest, k')" "mapped = x # rest"
    by (auto split: sum.splits)
  from buildTask_stamped [OF h(1)] have a: "k \<le> k1"
    "case x of None \<Rightarrow> True | Some t \<Rightarrow> list_all (stampedWithin clk k k1) (t_subtasks t)" by simp_all
  from Cons.IH [OF h(2)] have b: "k1 \<le> k'"
    "list_all (\<lambda>t. list_all (stampedWithin clk k1 k') (t_subtasks t)) (dropNulls rest)" by simp_all
  from a b have r: "list_all (\<lambda>t. list_all (stampedWithin clk k k') (t_subtasks t)) (dropNulls rest)"
    by (auto simp: list_all_iff intro: stampedWithin_widen)
  show ?case
  proof (cases x)
    case None
    with a b r h(3) show ?thesis by simp
  next
    case (Some t)
    with a b have "list_all (stampedWithin clk k k') (t_subtasks t)"
      by (auto simp: list_all_iff intro: stampedWithin_widen)
    with Some a b r h(3) show ?thesis by simp
  qed
qed

lemma fetchUpdates_stamped:
  assumes "truthy data" and "fetchUpdates clk data tasks k = Inr (newTasks, k')"
  shows "list_all (\<lambda>t. list_all (stampedWithin clk k k') (t_subtasks t)) newTasks"
proof (cases "length (updatesOf data) > 0 \<and> truthy (updatesOf data ! 0)")
  case True
  with assms obtain mapped where "buildTasks clk 0 (updatesOf data) k = Inr (mapped, k')"
    and "newTasks = dropNulls mapped"
    by (auto simp: fetchUpdates_def split: sum.splits)
  with buildTasks_stamped show ?thesis by blast
next
  case False
  with assms have "newTasks = []" by (auto simp: fetchUpdates_def)
  then show ?thesis by simp
qed

lemma map_clock_mono:
  assumes "\<And>x k. k \<le> snd (f x k)"
  shows "k \<le> snd (map_clock f xs k)"
proof (induction xs arbitrary: k)
  case Nil
  then show ?case by simp
next
  case (Cons x xs)
  have "k \<le> snd (f x k)" by (rule assms)
  also have "\<dots> \<le> snd (map_clock f xs (snd (f x k)))" by (rule Cons.IH)
  finally show ?case by (simp add: map_clock_Cons del: map_clock.simps(2))
qed

lemma map_clock_nth_bounded:
  assumes "\<And>x k. k \<le> snd (f x k)" and "i < length xs"
  shows "\<exists>k'. k \<le> k' \<and> snd (f (xs ! i) k') \<le> snd (map_clock f xs k) \<and>
              fst (map_clock f xs k) ! i = fst (f (xs ! i) k')"
  using assms(2)
proof (induction xs arbitrary: i k)
  case Nil
  then show ?case by simp
next
  case (Cons x xs)
  show ?case
  proof (cases i)
    case 0
    have "snd (f x k) \<le> snd (map_clock f xs (snd (f x k)))"
      by (rule map_clock_mono [OF assms(1)])
    with 0 show ?thesis
      by (auto simp: map_clock_Cons simp del: map_clock.simps(2) intro!: exI [of _ k])
  next
    case (Suc n)
    with Cons.prems have "n < length xs" by simp
    from Cons.IH [OF this, of "snd (f x k)"] obtain k' where
      k': "snd (f x k) \<le> k'" "snd (f (xs ! n) k') \<le> snd (map_clock f xs (snd (f x k)))"
          "fst (map_clock f xs (snd (f x k))) ! n = fst (f (xs ! n) k')" by blast
    have "k \<le> snd (f x k)" by (rule assms(1))
    with k'(1) have "k \<le> k'" by simp
    with k' Suc show ?thesis
      by (auto simp: map_clock_Cons simp del: map_clock.simps(2) intro!: exI [of _ k'])
  qed
qed

lemma updateSubtask_mono: "k \<le> snd (updateSubtask clk subtaskId newStatus s k)"
  by (simp add: updateSubtask_def)

lemma updateSubtaskOfTask_mono: "k \<le> snd (updateSubtaskOfTask clk taskId subtaskId newStatus t k)"
  by (simp add: updateSubtaskOfTask_eq map_clock_mono [OF updateSubtask_mono])

lemma addressed_subtask_stamped:
  assumes "i < length tasks" and "t_id (tasks ! i) = taskId"
    and "j < length (t_subtasks (tasks ! i))"
    and "st_id (t_subtasks (tasks ! i) ! j) = subtaskId"
  shows "st_status (t_subtasks (fst (updateSubtaskStatus clk taskId subtaskId newStatus tasks k) ! i) ! j)
           = newStatus"
    and "stampedWithin clk k (snd (updateSubtaskStatus clk taskId subtaskId newStatus tasks k))
           (t_subtasks (fst (updateSubtaskStatus clk taskId subtaskId newStatus tasks k) ! i) ! j)"
proof -
  let ?R = "updateSubtaskStatus clk taskId subtaskId newStatus tasks k"
  let ?subs = "t_subtasks (tasks ! i)"
  from map_clock_nth_bounded [of "updateSubtaskOfTask clk taskId subtaskId newStatus" i tasks k,
      OF updateSubtaskOfTask_mono assms(1)]
  obtain k1 where k1: "k \<le> k1"
    "snd (updateSubtaskOfTask clk taskId subtaskId newStatus (tasks ! i) k1) \<le> snd ?R"
    "fst ?R ! i = fst (updateSubtaskOfTask clk taskId subtaskId newStatus (tasks ! i) k1)"
    unfolding updateSubtaskStatus_def by blast
  let ?M = "map_clock (updateSubtask clk subtaskId newStatus) ?subs k1"
  from k1(2,3) assms(2) have m: "snd ?M \<le> snd ?R" "t_subtasks (fst ?R ! i) = fst ?M"
    by (simp_all add: updateSubtaskOfTask_eq)
  from map_clock_nth_bounded [of "updateSubtask clk subtaskId newStatus" j ?subs k1,
      OF updateSubtask_mono assms(3)]
  obtain k2 where k2: "k1 \<le> k2"
    "snd (updateSubtask clk subtaskId newStatus (?subs ! j) k2) \<le> snd ?M"
    "fst ?M ! j = fst (updateSubtask clk subtaskId newStatus (?subs ! j) k2)" by blast
  from k2(3) assms(4) have e: "fst ?M ! j =
     (?subs ! j)\<lparr>st_status := newStatus,
        st_completedAt := (if newStatus = Completed then Some (clk k2) else None)\<rparr>"
    by (simp add: updateSubtask_fst)
  have st: "st_status (t_subtasks (fst ?R ! i) ! j) = newStatus" by (simp add: m(2) e)
  have ca: "st_completedAt (t_subtasks (fst ?R ! i) ! j) =
              (if newStatus = Completed then Some (clk k2) else None)" by (simp add: m(2) e)
  show "st_status (t_subtasks (fst ?R ! i) ! j) = newStatus" by (rule st)
  show "stampedWithin clk k (snd ?R) (t_subtasks (fst ?R ! i) ! j)"
  proof (cases "newStatus = Completed")
    case True
    with k2(2) assms(4) have "Suc k2 \<le> snd ?M" by (simp add: updateSubtask_def)
    with m(1) k1(1) k2(1) have "k2 \<in> set [k..<snd ?R]" by simp
    then have "Some (clk k2) \<in> set (map (\<lambda>n. Some (clk n)) [k..<snd ?R])"
      by (simp only: set_map) blast
    then show ?thesis unfolding stampedWithin_def st ca using True by simp
  next
    case False
    then show ?thesis unfolding stampedWithin_def st ca by simp
  qed
qed

lemma unaddressed_subtask_unchanged:
  assumes "i < length tasks" and "j < length (t_subtasks (tasks ! i))"
    and "t_id (tasks ! i) \<noteq> taskId \<or> st_id (t_subtasks (tasks ! i) ! j) \<noteq> subtaskId"
  shows "t_subtasks (fst (updateSubtaskStatus clk taskId subtaskId newStatus tasks k) ! i) ! j
           = t_subtasks (tasks ! i) ! j"
proof -
  from updateSubtaskStatus_nth [OF assms(1)] obtain k1 where
    r: "fst (updateSubtaskStatus clk taskId subtaskId newStatus tasks k) ! i =
         fst (updateSubtaskOfTask clk taskId subtaskId newStatus (tasks ! i) k1)" by blast
  show ?thesis
  proof (cases "t_id (tasks ! i) = taskId")
    case False
    with r show ?thesis by (simp add: updateSubtaskOfTask_eq)
  next
    case True
    with assms(3) have ne: "st_id (t_subtasks (tasks ! i) ! j) \<noteq> subtaskId" by simp
    from updated_subtask_nth [OF assms(2), of clk subtaskId newStatus k1] ne
    have "fst (map_clock (updateSubtask clk subtaskId newStatus) (t_subtasks (tasks ! i)) k1) ! j =
            t_subtasks (tasks ! i) ! j" by auto
    with r True show ?thesis by (simp add: updateSubtaskOfTask_eq)
  qed
qed

lemma buildTask_Some_spec:
  assumes "buildTask clk index r k = Inr (Some t, k')"
  shows "specTask r t"
proof -
  from buildTask_Some(1) [OF assms] obtain steps k1 where
    s: "getProp r ''steps'' = Some (JArr steps)"
    and b: "buildSubtasks clk index 0 steps k = Inr (t_subtasks t, k1)" by blast
  from s have so: "stepsOf r = steps" by (simp add: stepsOf_def)
  have each: "\<forall>i<length steps. specSubtask i (steps ! i) (t_subtasks t ! i)"
  proof (intro allI impI)
    fix i assume "i < length steps"
    with buildSubtasks_nth(2) [OF b] obtain kk kk' where
      "buildSubtask clk index i (steps ! i) kk = Inr (t_subtasks t ! i, kk')" by auto
    from buildSubtask_Inr(3,4) [OF this]
    show "specSubtask i (steps ! i) (t_subtasks t ! i)"
      by (simp add: specSubtask_def orElse_def)
  qed
  with buildTask_Some(2,3) [OF assms] buildSubtasks_nth(1) [OF b] so show ?thesis
    by (simp add: specTask_def list_all_iff)
qed

lemma buildTask_valid_spec:
  assumes "validRecord r" and "buildsWithoutError r"
  shows "\<exists>t k'. buildTask clk index r k = Inr (Some t, k') \<and> specTask r t"
  using buildTask_valid [OF assms] buildTask_Some_spec by blast

lemma buildTask_throws:
  assumes "validRecord r" and "\<not> buildsWithoutError r"
  shows "buildTask clk index r k = Inl TypeError"
proof (cases "buildTask clk index r k")
  case (Inl e)
  then show ?thesis by (simp add: error_is_TypeError [of e])
next
  case (Inr x)
  from buildTask_Inr_builds [OF this assms(1)] assms(2) show ?thesis by simp
qed

lemma buildTasks_spec:
  assumes "\<forall>r\<in>set updates. validRecord r \<longrightarrow> buildsWithoutError r"
  shows "\<exists>mapped k'. buildTasks clk i0 updates k = Inr (mapped, k') \<and>
           list_all2 specTask (filter validRecord updates) (dropNulls mapped)"
  using assms
proof (induction updates arbitrary: i0 k)
  case Nil
  then show ?case by simp
next
  case (Cons r updates)
  then have rest: "\<forall>r\<in>set updates. validRecord r \<longrightarrow> buildsWithoutError r" by simp
  show ?case
  proof (cases "validRecord r")
    case True
    with Cons.prems have "buildsWithoutError r" by simp
    from buildTask_valid_spec [OF True this] obtain t k1 where
      b: "buildTask clk i0 r k = Inr (Some t, k1)" "specTask r t" by blast
    from Cons.IH [OF rest] obtain mapped k' where
      "buildTasks clk (Suc i0) updates k1 = Inr (mapped, k')"
      "list_all2 specTask (filter validRecord updates) (dropNulls mapped)" by blast
    with b True show ?thesis by simp
  next
    case False
    from Cons.IH [OF rest] obtain mapped k' where
      "buildTasks clk (Suc i0) updates k = Inr (mapped, k')"
      "list_all2 specTask (filter validRecord updates) (dropNulls mapped)" by blast
    with False show ?thesis by (simp add: buildTask_invalid)
  qed
qed

lemma updateSubtaskStatus_subtasks_length:
  assumes "i < length tasks"
  shows "length (t_subtasks (fst (updateSubtaskStatus clk taskId subtaskId newStatus tasks k) ! i))
           = length (t_subtasks (tasks ! i))"
proof -
  from updateSubtaskStatus_nth [OF assms] obtain k1 where
    "fst (updateSubtaskStatus clk taskId subtaskId newStatus tasks k) ! i =
       fst (updateSubtaskOfTask clk taskId subtaskId newStatus (tasks ! i) k1)" by blast
  then show ?thesis by (simp add: updateSubtaskOfTask_eq length_map_clock)
qed

lemma stamped_all_consistent:
  "list_all (\<lambda>t. list_all (stampedWithin clk k k') (t_subtasks t)) ts \<Longrightarrow> subtasksConsistent ts"
  by (auto simp: subtasksConsistent_def list_all_iff intro: stampedWithin_consistent)

text \<open>
  Claim C3, amended to subtasks. After a build by \<open>fetchUpdates\<close> every subtask that is
  completed has as \<open>completedAt\<close> a reading of the clock taken during the build, the current
  time, and every other subtask has none; so \<open>completedAt\<close> is there exactly when the status
  is completed. \<open>updateSubtaskStatus\<close> and \<open>updateTaskStatus\<close> keep this true of every
  subtask of the collection. In the result of \<open>updateSubtaskStatus\<close> the collection and
  each task's subtasks keep their lengths; a subtask with the addressed id in a task with the
  addressed id has the new status, with \<open>completedAt\<close> a reading of the clock taken during
  the call when the new status is completed and no \<open>completedAt\<close> otherwise; every other
  subtask is as it was. \<open>updateTaskStatus\<close> leaves the subtasks of every task as they are.
\<close>

theorem subtask_completedAt_consistent:
  "(truthy data \<and> fetchUpdates clk data tasks k = Inr (newTasks, k') \<longrightarrow>
      list_all (\<lambda>t. list_all (stampedWithin clk k k') (t_subtasks t)) newTasks \<and>
      subtasksConsistent newTasks) \<and>
   (subtasksConsistent tasks \<longrightarrow>
      subtasksConsistent (fst (updateSubtaskStatus clk taskId subtaskId newStatus tasks k)) \<and>
      subtasksConsistent (updateTaskStatus taskId newStatus tasks)) \<and>
   (i < length tasks \<and> j < length (t_subtasks (tasks ! i)) \<longrightarrow>
      length (fst (updateSubtaskStatus clk taskId subtaskId newStatus tasks k)) = length tasks \<and>
      length (t_subtasks (fst (updateSubtaskStatus clk taskId subtaskId newStatus tasks k) ! i))
        = length (t_subtasks (tasks ! i)) \<and>
      (if t_id (tasks ! i) = taskId \<and> st_id (t_subtasks (tasks ! i) ! j) = subtaskId
       then st_status (t_subtasks (fst (updateSubtaskStatus clk taskId subtaskId newStatus tasks k) ! i) ! j)
              = newStatus \<and>
            stampedWithin clk k (snd (updateSubtaskStatus clk taskId subtaskId newStatus tasks k))
              (t_subtasks (fst (updateSubtaskStatus clk taskId subtaskId newStatus tasks k) ! i) ! j)
       else t_subtasks (fst (updateSubtaskStatus clk taskId subtaskId newStatus tasks k) ! i) ! j
              = t_subtasks (tasks ! i) ! j)) \<and>
   map t_subtasks (updateTaskStatus taskId newStatus tasks) = map t_subtasks tasks"
proof (intro conjI impI)
  assume a: "truthy data \<and> fetchUpdates clk data tasks k = Inr (newTasks, k')"
  then show s: "list_all (\<lambda>t. list_all (stampedWithin clk k k') (t_subtasks t)) newTasks"
    using fetchUpdates_stamped by blast
  then show "subtasksConsistent newTasks" by (rule stamped_all_consistent)
next
  assume "subtasksConsistent tasks"
  then show "subtasksConsistent (fst (updateSubtaskStatus clk taskId subtaskId newStatus tasks k))"
    by (rule updateSubtaskStatus_consistent)
next
  assume "subtasksConsistent tasks"
  then show "subtasksConsistent (updateTaskStatus taskId newStatus tasks)"
    by (rule updateTaskStatus_consistent)
next
  show "length (fst (updateSubtaskStatus clk taskId subtaskId newStatus tasks k)) = length tasks"
    by (rule length_updateSubtaskStatus)
next
  assume "i < length tasks \<and> j < length (t_subtasks (tasks ! i))"
  then show "length (t_subtasks (fst (updateSubtaskStatus clk taskId subtaskId newStatus tasks k) ! i))
        = length (t_subtasks (tasks ! i))"
    by (simp add: updateSubtaskStatus_subtasks_length)
next
  assume a: "i < length tasks \<and> j < length (t_subtasks (tasks ! i))"
  show "if t_id (tasks ! i) = taskId \<and> st_id (t_subtasks (tasks ! i) ! j) = subtaskId
       then st_status (t_subtasks (fst (updateSubtaskStatus clk taskId subtaskId newStatus tasks k) ! i) ! j)
              = newStatus \<and>
            stampedWithin clk k (snd (updateSubtaskStatus clk taskId subtaskId newStatus tasks k))
              (t_subtasks (fst (updateSubtaskStatus clk taskId subtaskId newStatus tasks k) ! i) ! j)
       else t_subtasks (fst (updateSubtaskStatus clk taskId subtaskId newStatus tasks k) ! i) ! j
              = t_subtasks (tasks ! i) ! j"
  proof (cases "t_id (tasks ! i) = taskId \<and> st_id (t_subtasks (tasks ! i) ! j) = subtaskId")
    case True
    from a have i: "i < length tasks" and j: "j < length (t_subtasks (tasks ! i))" by simp_all
    from True have tid: "t_id (tasks ! i) = taskId"
      and sid: "st_id (t_subtasks (tasks ! i) ! j) = subtaskId" by simp_all
    from addressed_subtask_stamped [OF i tid j sid] True
    show ?thesis by simp
  next
    case False
    from a have i: "i < length tasks" and j: "j < length (t_subtasks (tasks ! i))" by simp_all
    from False have "t_id (tasks ! i) \<noteq> taskId \<or> st_id (t_subtasks (tasks ! i) ! j) \<noteq> subtaskId"
      by simp
    from unaddressed_subtask_unchanged [OF i j this] False
    show ?thesis by auto
  qed
next
  show "map t_subtasks (updateTaskStatus taskId newStatus tasks) = map t_subtasks tasks"
    by (rule updateTaskStatus_subtasks)
qed

theorem subtask_completedAt_consistent_witness:
  "truthy (JArr [exampleRecord]) \<and> subtasksConsistent exampleTasks \<and>
   subtasksConsistent (fst (updateSubtaskStatus exampleClock ''t1'' ''b'' Completed exampleTasks 7)) \<and>
   map st_completedAt
     (t_subtasks (fst (updateSubtaskStatus exampleClock ''t1'' ''b'' Completed exampleTasks 7) ! 0))
     = [Some 5, Some 1007] \<and>
   map st_status
     (t_subtasks (fst (updateSubtaskStatus exampleClock ''t1'' ''b'' Completed exampleTasks 7) ! 0))
     = [Completed, Completed] \<and>
   map st_completedAt
     (t_subtasks (fst (updateSubtaskStatus exampleClock ''t1'' ''a'' Pending exampleTasks 7) ! 0))
     = [None, None] \<and>
   (case fetchUpdates exampleClock (JArr [exampleRecord]) exampleTasks 0 of
      Inl e \<Rightarrow> False
    | Inr (ts, k') \<Rightarrow>
        map (\<lambda>t. map st_completedAt (t_subtasks t)) ts = [[Some 1001, None]] \<and>
        subtasksConsistent ts)"
proof -
  have t: "truthy (JArr [exampleRecord])" by (simp add: truthy_def)
  have c: "subtasksConsistent exampleTasks"
    by (simp add: subtasksConsistent_def completedAtConsistent_def example_defs)
  have "case fetchUpdates exampleClock (JArr [exampleRecord]) exampleTasks 0 of
      Inl e \<Rightarrow> False
    | Inr (ts, k') \<Rightarrow> map (\<lambda>t. map st_completedAt (t_subtasks t)) ts = [[Some 1001, None]]"
    by (simp add: build_defs)
  then obtain ts k' where r: "fetchUpdates exampleClock (JArr [exampleRecord]) exampleTasks 0 = Inr (ts, k')"
    and v: "map (\<lambda>t. map st_completedAt (t_subtasks t)) ts = [[Some 1001, None]]"
    by (auto split: sum.splits)
  from subtask_completedAt_consistent
    [of "JArr [exampleRecord]" exampleClock exampleTasks 0 ts k' "''t1''" "''b''" Completed 0 1] t r
  have a: "subtasksConsistent ts" by blast
  from subtask_completedAt_consistent
    [of "JArr [exampleRecord]" exampleClock exampleTasks 7 ts k' "''t1''" "''b''" Completed 0 1] c
  have b: "subtasksConsistent (fst (updateSubtaskStatus exampleClock ''t1'' ''b'' Completed exampleTasks 7))"
    by blast
  have d: "map st_completedAt
     (t_subtasks (fst (updateSubtaskStatus exampleClock ''t1'' ''b'' Completed exampleTasks 7) ! 0))
     = [Some 5, Some 1007]"
    "map st_status
     (t_subtasks (fst (updateSubtaskStatus exampleClock ''t1'' ''b'' Completed exampleTasks 7) ! 0))
     = [Completed, Completed]"
    "map st_completedAt
     (t_subtasks (fst (updateSubtaskStatus exampleClock ''t1'' ''a'' Pending exampleTasks 7) ! 0))
     = [None, None]"
    by (simp_all add: example_defs)
  from t c r v a b d show ?thesis by simp
qed

text \<open>
  Claim C7 says that the builder gives every accepted record with an unmatched priority the
  priority medium. A record with a title, an array of steps and the priority 5 passes the
  builder's check, and the specification's reading gives it medium; the builder throws a
  TypeError on it, and so does the fetch.
\<close>

theorem builder_normalises_counterexample:
  "validRecord numericPriorityRecord \<and>
   specPriority (getProp numericPriorityRecord ''priority'') = Medium \<and>
   buildTask exampleClock 0 numericPriorityRecord 0 = Inl TypeError \<and>
   fetchUpdates exampleClock (JArr [numericPriorityRecord]) exampleTasks 0 = Inl TypeError"
  by (simp add: build_defs numericPriorityRecord_def specPriority_def)

text \<open>
  Claim C7, amended. For a record that the builder keeps and in which no step is \<open>null\<close>
  and every priority and status is missing, falsy or a string, the builder returns a task:
  its priority is the keyword among high and low that the record's priority matches without
  regard to case, and medium for every other or missing value; its status and each subtask's
  status is the keyword among completed and in-progress that the status matches without
  regard to case, and pending otherwise; and a subtask whose step has no \<open>step\<close> property
  is titled \<open>Step\<close> followed by its position counted from one. A kept record with a
  \<open>null\<close> step or a truthy priority or status that is not a string makes the builder throw
  a TypeError. A fetch whose first element is truthy and whose kept records all build returns
  one such task per kept record, in order.
\<close>

theorem builder_normalises:
  "(validRecord r \<and> buildsWithoutError r \<longrightarrow>
      (\<exists>t k'. buildTask clk index r k = Inr (Some t, k') \<and> specTask r t)) \<and>
   (validRecord r \<and> \<not> buildsWithoutError r \<longrightarrow> buildTask clk index r k = Inl TypeError) \<and>
   (updatesOf data \<noteq> [] \<and> truthy (hd (updatesOf data)) \<and>
    (\<forall>r\<in>set (updatesOf data). validRecord r \<longrightarrow> buildsWithoutError r) \<longrightarrow>
      (\<exists>newTasks k'. fetchUpdates clk data tasks k = Inr (newTasks, k') \<and>
         list_all2 specTask (filter validRecord (updatesOf data)) newTasks))"
proof (intro conjI impI)
  assume "validRecord r \<and> buildsWithoutError r"
  then show "\<exists>t k'. buildTask clk index r k = Inr (Some t, k') \<and> specTask r t"
    using buildTask_valid_spec by blast
next
  assume "validRecord r \<and> \<not> buildsWithoutError r"
  then show "buildTask clk index r k = Inl TypeError" using buildTask_throws by blast
next
  assume a: "updatesOf data \<noteq> [] \<and> truthy (hd (updatesOf data)) \<and>
    (\<forall>r\<in>set (updatesOf data). validRecord r \<longrightarrow> buildsWithoutError r)"
  then have d: "truthy data" by (simp add: truthy_hd_updatesOf)
  from a have ne: "updatesOf data \<noteq> []" and tr: "truthy (hd (updatesOf data))" by simp_all
  from ne tr have g: "length (updatesOf data) > 0 \<and> truthy (updatesOf data ! 0)"
    by (simp add: hd_conv_nth)
  from a have "\<forall>r\<in>set (updatesOf data). validRecord r \<longrightarrow> buildsWithoutError r" by simp
  from buildTasks_spec [OF this] obtain mapped k' where
    "buildTasks clk 0 (updatesOf data) k = Inr (mapped, k')"
    "list_all2 specTask (filter validRecord (updatesOf data)) (dropNulls mapped)" by blast
  with d g have "fetchUpdates clk data tasks k = Inr (dropNulls mapped, k') \<and>
     list_all2 specTask (filter validRecord (updatesOf data)) (dropNulls mapped)"
    by (simp add: fetchUpdates_def)
  then show "\<exists>newTasks k'. fetchUpdates clk data tasks k = Inr (newTasks, k') \<and>
         list_all2 specTask (filter validRecord (updatesOf data)) newTasks" by blast
qed

theorem builder_normalises_witness:
  "validRecord plainRecord \<and> buildsWithoutError plainRecord \<and>
   getProp plainRecord ''status'' = None \<and>
   specStatus (getProp plainRecord ''status'') = Pending \<and>
   specPriority (getProp plainRecord ''priority'') = Medium \<and>
   specPriority (getProp exampleRecord ''priority'') = High \<and>
   (case buildTask exampleClock 1 plainRecord 0 of
      Inr (Some t, k') \<Rightarrow>
        t_priority t = Medium \<and> t_status t = Pending \<and>
        map st_status (t_subtasks t) = [InProgress, Pending] \<and>
        map st_title (t_subtasks t) = [JStr ''Step 1'', JStr ''Step 2'']
    | _ \<Rightarrow> False) \<and>
   (case fetchUpdates exampleClock (JArr [exampleRecord, plainRecord]) exampleTasks 0 of
      Inl e \<Rightarrow> False
    | Inr (ts, k') \<Rightarrow>
        map t_priority ts = [High, Medium] \<and> map t_status ts = [InProgress, Pending] \<and>
        map (\<lambda>t. map st_status (t_subtasks t)) ts = [[Completed, Pending], [InProgress, Pending]] \<and>
        map (\<lambda>t. map st_title (t_subtasks t)) ts
          = [[JStr ''Backup'', JStr ''Step 2''], [JStr ''Step 1'', JStr ''Step 2'']])"
proof -
  have v: "validRecord plainRecord" "buildsWithoutError plainRecord"
    by (simp_all add: build_defs plainRecord_def buildsWithoutError_def stepsOf_def stepBuilds_def
        stringOrFalsy_def)
  have sp: "getProp plainRecord ''status'' = None"
    "specStatus (getProp plainRecord ''status'') = Pending"
    "specPriority (getProp plainRecord ''priority'') = Medium"
    "specPriority (getProp exampleRecord ''priority'') = High"
    by (simp_all add: getProp_def plainRecord_def exampleRecord_def specStatus_def specPriority_def
        ciMatch_def capitalOf_def)
  from builder_normalises [of plainRecord exampleClock 1 0 "JArr [exampleRecord, plainRecord]" exampleTasks] v
  obtain t k' where b: "buildTask exampleClock 1 plainRecord 0 = Inr (Some t, k')"
    and s: "specTask plainRecord t" by blast
  from s sp have p: "t_priority t = Medium" "t_status t = Pending" by (simp_all add: specTask_def)
  have "case buildTask exampleClock 1 plainRecord 0 of
      Inr (Some t, k') \<Rightarrow>
        map st_status (t_subtasks t) = [InProgress, Pending] \<and>
        map st_title (t_subtasks t) = [JStr ''Step 1'', JStr ''Step 2'']
    | _ \<Rightarrow> False"
    by (simp add: build_defs plainRecord_def)
  with b p have one: "case buildTask exampleClock 1 plainRecord 0 of
      Inr (Some t, k') \<Rightarrow>
        t_priority t = Medium \<and> t_status t = Pending \<and>
        map st_status (t_subtasks t) = [InProgress, Pending] \<and>
        map st_title (t_subtasks t) = [JStr ''Step 1'', JStr ''Step 2'']
    | _ \<Rightarrow> False" by simp
  have two: "case fetchUpdates exampleClock (JArr [exampleRecord, plainRecord]) exampleTasks 0 of
      Inl e \<Rightarrow> False
    | Inr (ts, k') \<Rightarrow>
        map t_priority ts = [High, Medium] \<and> map t_status ts = [InProgress, Pending] \<and>
        map (\<lambda>t. map st_status (t_subtasks t)) ts = [[Completed, Pending], [InProgress, Pending]] \<and>
        map (\<lambda>t. map st_title (t_subtasks t)) ts
          = [[JStr ''Backup'', JStr ''Step 2''], [JStr ''Step 1'', JStr ''Step 2'']]"
    by (simp add: build_defs plainRecord_def)
  from v sp one two show ?thesis by simp
qed

end
